theory Spec2Isabelle
  imports Main "HOL-Library.AList" "HOL-Library.Word"
begin

section \<open>Shared data\<close>

text \<open>
  Go strings and byte slices are both sequences of bytes; \<open>[]byte(s)\<close> and \<open>string(b)\<close>
  are the identity on them.
\<close>

type_synonym bytes = string

text \<open>
  A Go \<open>map[K]V\<close> is kept as an association list whose keys are pairwise distinct:
  \<open>m[k] = v\<close> is \<open>AList.update k v m\<close>, \<open>m[k]\<close> is \<open>map_of m k\<close>, \<open>len(m)\<close> is the
  length of the list, and the \<open>nil\<close> map is the empty list.
\<close>

type_synonym ('k, 'v) gomap = "('k \<times> 'v) list"

text \<open>
  Values of the Go interface \<open>error\<close> that the code tells apart: the sentinels \<open>io.EOF\<close> and
  \<open>badger.ErrKeyNotFound\<close>, and any other error with its text. A returned \<open>error\<close> is an
  \<open>error option\<close>, \<open>None\<close> for \<open>nil\<close>.
\<close>

datatype error = EOF | ErrKeyNotFound | Error string

text \<open>A call either returns or stops the goroutine with a panic.\<close>

datatype 'a outcome = Panic string | Return 'a


section \<open>Tiered disk-fallback index cache (\<open>BadgerIndexCache\<close>)\<close>

record Label =
  Name :: string
  Value :: string

type_synonym ULID = string

text \<open>An item found by \<open>txn.Get\<close>; \<open>ValueCopy\<close> yields its bytes or an error.\<close>

datatype Item = Item (ValueCopy: "error + bytes")

text \<open>
  The struct \<open>BadgerIndexCache\<close>. The disk store \<open>db\<close> is seen through the one operation the
  read path uses, \<open>txn.Get\<close> inside \<open>db.View\<close>; the fallback \<open>ic\<close> is any implementation of
  the interface method \<open>IndexCache.FetchMultiPostings\<close>.
\<close>

record BadgerIndexCache =
  db :: "bytes \<Rightarrow> error + Item"
  ic :: "ULID \<Rightarrow> Label list \<Rightarrow> (Label, bytes) gomap \<times> Label list"

definition coreLabel :: Label where
  "coreLabel = \<lparr>Name = ''app'', Value = ''core''\<rparr>"

text \<open>
  The first loop of \<open>FetchMultiPostings\<close>: the index of the first label equal to
  \<open>coreLabel\<close>, if any.
\<close>

primrec findCore :: "Label list \<Rightarrow> nat option" where
  "findCore [] = None"
| "findCore (l # ls) = (if l = coreLabel then Some 0 else map_option Suc (findCore ls))"

text \<open>
  At that index the loop overwrites the label with the last one, cuts the slice by one and
  breaks: \<open>lbls[i] = lbls[len(lbls)-1]; lbls = lbls[:len(lbls)-1]; foundCore = true\<close>.
\<close>

definition extractCore :: "Label list \<Rightarrow> Label list \<times> bool" where
  "extractCore lbls =
     (case findCore lbls of
        None \<Rightarrow> (lbls, False)
      | Some i \<Rightarrow> (butlast (lbls[i := last lbls]), True))"

text \<open>
  The closure run by \<open>c.db.View\<close>; it yields \<open>extraHits\<close> and \<open>extraMisses\<close>. The error the
  closure returns is dropped by the caller, so it is not part of the result.
\<close>

definition viewCore :: "BadgerIndexCache \<Rightarrow> bytes \<Rightarrow> (Label, bytes) gomap \<times> Label list" where
  "viewCore c key =
     (case db c key of
        Inl err \<Rightarrow> ([], if err = ErrKeyNotFound then [coreLabel] else [])
      | Inr item \<Rightarrow>
          (case ValueCopy item of
             Inl err \<Rightarrow> ([], [])
           | Inr val \<Rightarrow> ([(coreLabel, val)], [])))"

text \<open>
  \<open>FetchMultiPostings\<close>. The function \<open>cacheKey\<close> stands for
  \<open>cacheKey{blockID, cacheKeyPostings(l)}.string()\<close>, whose declaration is not among the
  sources.
\<close>

definition FetchMultiPostings ::
  "(ULID \<Rightarrow> Label \<Rightarrow> bytes) \<Rightarrow> BadgerIndexCache \<Rightarrow> ULID \<Rightarrow> Label list
     \<Rightarrow> (Label, bytes) gomap \<times> Label list" where
  "FetchMultiPostings cacheKey c blockID lbls =
     (let (lbls', foundCore) = extractCore lbls;
          (extraHits, extraMisses) =
             (if foundCore then viewCore c (cacheKey blockID coreLabel) else ([], []));
          (hits, misses) = ic c blockID lbls'
      in (fold (\<lambda>(k, v). AList.update k v) extraHits hits, misses @ extraMisses))"

text \<open>
  A backend result is complete for the requested labels \<open>L\<close> when hits and misses together
  are exactly the labels of \<open>L\<close>, no label is both a hit and a miss, and none is listed twice.
\<close>

definition complete :: "Label list \<Rightarrow> (Label, bytes) gomap \<times> Label list \<Rightarrow> bool" where
  "complete L r =
     (fst ` set (fst r) \<union> set (snd r) = set L \<and>
      fst ` set (fst r) \<inter> set (snd r) = {} \<and>
      distinct (map fst (fst r)) \<and> distinct (snd r))"

text \<open>Two fixed collaborators for concrete runs: a fallback that holds nothing, and a key.\<close>

definition emptyFallback :: "ULID \<Rightarrow> Label list \<Rightarrow> (Label, bytes) gomap \<times> Label list" where
  "emptyFallback blockID lbls = ([], remdups lbls)"

definition plainKey :: "ULID \<Rightarrow> Label \<Rightarrow> bytes" where
  "plainKey blockID l = blockID @ '':'' @ Name l @ ''='' @ Value l"

text \<open>Two disk stores for concrete runs: one that finds \<open>v\<close> under every key, one whose reads
  fail with \<open>e\<close>.\<close>

definition diskHolding :: "bytes \<Rightarrow> bytes \<Rightarrow> error + Item" where
  "diskHolding v key = Inr (Item (Inr v))"

definition diskFailing :: "error \<Rightarrow> bytes \<Rightarrow> error + Item" where
  "diskFailing e key = Inl e"


section \<open>Remote cache backend (\<open>RueidisCache\<close> over \<open>RueidisClient\<close>)\<close>

text \<open>One element of the array a multi-get answers with: \<open>ToString\<close> yields the value, or an
  error (a nil reply for a key the service does not hold).\<close>

datatype RedisMessage = RedisMessage (ToString: "error + string")

text \<open>
  The struct \<open>RueidisClient\<close>, seen through the one request \<open>GetMulti\<close> issues:
  \<open>c.client.DoCache(ctx, c.client.B().Mget().Key(keys...).Cache(), 8*time.Hour).ToArray()\<close>,
  which yields the reply array and an error. The latency histograms observe wall-clock time
  and are left out.
\<close>

record RueidisClient =
  DoCacheMget :: "string list \<Rightarrow> RedisMessage list \<times> error option"

text \<open>
  The loop \<open>for i, resp := range resps\<close> of \<open>GetMulti\<close>, from index \<open>i\<close> on. \<open>keys[i]\<close> is
  read only for a reply that converts without error; read beyond the keys, it panics.
\<close>

fun GetMulti_loop ::
  "string list \<Rightarrow> nat \<Rightarrow> RedisMessage list \<Rightarrow> (string, bytes) gomap
     \<Rightarrow> (string, bytes) gomap outcome" where
  "GetMulti_loop keys i [] results = Return results"
| "GetMulti_loop keys i (resp # resps) results =
     (case ToString resp of
        Inl err \<Rightarrow> GetMulti_loop keys (Suc i) resps results
      | Inr val \<Rightarrow>
          if i < length keys
          then GetMulti_loop keys (Suc i) resps (AList.update (keys ! i) val results)
          else Panic ''index out of range'')"

definition GetMulti :: "RueidisClient \<Rightarrow> string list \<Rightarrow> (string, bytes) gomap outcome" where
  "GetMulti c keys =
     (if length keys = 0 then Return []
      else let (resps, err) = DoCacheMget c keys
           in GetMulti_loop keys 0 resps [])"

text \<open>
  The struct \<open>RueidisCache\<close>. The two Prometheus counters only ever receive
  \<open>float64(len(...))\<close>, so they are kept as natural numbers.
\<close>

record RueidisCache =
  redisClient :: RueidisClient
  name :: string
  requests :: nat
  hits :: nat

definition Fetch ::
  "RueidisCache \<Rightarrow> string list \<Rightarrow> ((string, bytes) gomap \<times> RueidisCache) outcome" where
  "Fetch c keys =
     (let c1 = c\<lparr>requests := requests c + length keys\<rparr>
      in case GetMulti (redisClient c1) keys of
           Panic p \<Rightarrow> Panic p
         | Return results \<Rightarrow> Return (results, c1\<lparr>hits := hits c1 + length results\<rparr>))"

text \<open>A remote service for concrete runs: it holds \<open>''k1''\<close> and answers every other key
  with a nil reply.\<close>

definition oneKeyService :: "string list \<Rightarrow> RedisMessage list \<times> error option" where
  "oneKeyService keys =
     (map (\<lambda>k. RedisMessage (if k = ''k1'' then Inr ''v1'' else Inl (Error ''redis nil''))) keys,
      None)"


section \<open>Stream response cache (\<open>grpccache\<close>)\<close>

subsection \<open>Formatting and scanning the count\<close>

text \<open>\<open>fmt.Sprintf("%d", n)\<close>: the decimal digits of \<open>n\<close>, most significant first, after a
  minus sign when \<open>n\<close> is negative.\<close>

definition digitChar :: "nat \<Rightarrow> char" where
  "digitChar d = ''0123456789'' ! d"

fun digits :: "nat \<Rightarrow> string" where
  "digits n = (if n < 10 then [digitChar n] else digits (n div 10) @ [digitChar (n mod 10)])"

declare digits.simps [simp del]

definition Sprintf_d :: "int \<Rightarrow> string" where
  "Sprintf_d n = (if n < 0 then CHR ''-'' # digits (nat (- n)) else digits (nat n))"

text \<open>
  \<open>fmt.Sscanf(s, "%d", &numKeys)\<close> on a 64-bit platform; \<open>None\<close> stands for
  \<open>n != 1 || err != nil\<close>. The scanner skips leading white space (a newline is not white
  space here and ends the scan with an error), accepts one sign, then takes the longest run
  of decimal digits, which must not be empty, and hands sign and run to
  \<open>strconv.ParseInt(tok, 10, 64)\<close>, which rejects a value outside \<open>[-2\<^sup>6\<^sup>3, 2\<^sup>6\<^sup>3)\<close>. Input after
  the run is not looked at: \<open>1_0\<close> and \<open>3abc\<close> scan as 1 and 3.
\<close>

definition spaceWidth :: "string \<Rightarrow> nat" where
  "spaceWidth s =
     (if take 1 s \<in> set [[CHR 0x09], [CHR 0x0B], [CHR 0x0C], [CHR 0x0D], [CHR 0x20]] then 1
      else if take 2 s \<in> set [[CHR 0xC2, CHR 0x85], [CHR 0xC2, CHR 0xA0]] then 2
      else if take 3 s = [CHR 0xE1, CHR 0x9A, CHR 0x80] then 3
      else if take 2 s = [CHR 0xE2, CHR 0x80] \<and>
              take 1 (drop 2 s) \<in> set (map (\<lambda>b. [b])
                [CHR 0x80, CHR 0x81, CHR 0x82, CHR 0x83, CHR 0x84, CHR 0x85, CHR 0x86, CHR 0x87,
                 CHR 0x88, CHR 0x89, CHR 0x8A, CHR 0xA8, CHR 0xA9, CHR 0xAF]) then 3
      else if take 3 s = [CHR 0xE2, CHR 0x81, CHR 0x9F] then 3
      else if take 3 s = [CHR 0xE3, CHR 0x80, CHR 0x80] then 3
      else 0)"

fun SkipSpace :: "string \<Rightarrow> string" where
  "SkipSpace [] = []"
| "SkipSpace (c # cs) =
     (if spaceWidth (c # cs) = 0 then c # cs
      else SkipSpace (drop (spaceWidth (c # cs) - 1) cs))"

definition isDigit :: "char \<Rightarrow> bool" where
  "isDigit c = (c \<in> set ''0123456789'')"

definition digitVal :: "char \<Rightarrow> nat" where
  "digitVal c = of_char c - 48"

definition decimal :: "string \<Rightarrow> nat" where
  "decimal tok = foldl (\<lambda>a c. 10 * a + digitVal c) 0 tok"

definition Sscanf_d :: "string \<Rightarrow> int option" where
  "Sscanf_d input =
     (let s = SkipSpace input;
          neg = (take 1 s = ''-'');
          s' = (if take 1 s = ''+'' \<or> take 1 s = ''-'' then drop 1 s else s);
          tok = takeWhile isDigit s'
      in if tok = [] then None
         else if neg then (if decimal tok > 2 ^ 63 then None else Some (- int (decimal tok)))
         else (if decimal tok \<ge> 2 ^ 63 then None else Some (int (decimal tok))))"

subsection \<open>Collaborators\<close>

text \<open>
  The generated protobuf code of \<open>storepb\<close> and the \<open>xxhash\<close> digest are not among the
  sources; the model takes them as parameters. \<open>'q\<close> is the type of the values of
  \<open>storepb.SeriesRequest\<close>, \<open>'r\<close> that of \<open>storepb.SeriesResponse\<close>. \<open>Marshal\<close> gives the bytes
  \<open>m\<close> of \<open>m, _ := resp.Marshal()\<close>; \<open>Sum64\<close> is the digest of the bytes written so far.
  \<open>maxCap\<close> is a constant of the platform: the largest capacity for which
  \<open>make([]string, 0, n)\<close> returns. For a negative \<open>n\<close> and for an \<open>n\<close> above it the runtime
  panics with \<open>makeslice: cap out of range\<close>.
\<close>

record ('q, 'r) externals =
  MarshalRequest :: "'q \<Rightarrow> bytes"
  Marshal :: "'r \<Rightarrow> bytes"
  Unmarshal :: "bytes \<Rightarrow> error + 'r"
  Sum64 :: "bytes \<Rightarrow> 64 word"
  maxCap :: nat

text \<open>\<open>h.Sum(nil)\<close>: the eight bytes of the digest, most significant first.\<close>

definition Sum :: "64 word \<Rightarrow> bytes" where
  "Sum s = map (\<lambda>k. char_of (unat (drop_bit k s))) [56, 48, 40, 32, 24, 16, 8, 0]"

text \<open>
  Modelled from the spec: \<open>cache.InMemoryCache\<close> and its constructor are not among the
  sources. This is the cache backend contract of the spec (section 4.1) and no more: \<open>Fetch\<close>
  returns the requested keys that are present, \<open>Store\<close> writes a batch, the last write
  winning per key. Size bounds, eviction and expiry are not modelled; the properties below
  that speak of a later lookup state what they need of the cache's content at that time.
  The field \<open>stored\<close> records the batches handed to \<open>Store\<close>, oldest first.
\<close>

record InMemoryCacheConfig =
  MaxSize :: nat
  MaxItemSize :: nat

record InMemoryCache =
  config :: InMemoryCacheConfig
  items :: "(string, bytes) gomap"
  stored :: "(string, bytes) gomap list"

definition NewInMemoryCacheWithConfig :: "InMemoryCacheConfig \<Rightarrow> error + InMemoryCache" where
  "NewInMemoryCacheWithConfig cfg = Inr \<lparr>config = cfg, items = [], stored = []\<rparr>"

definition InMemoryCache_Fetch :: "InMemoryCache \<Rightarrow> string list \<Rightarrow> (string, bytes) gomap" where
  "InMemoryCache_Fetch c keys =
     fold (\<lambda>k results. case map_of (items c) k of
                          None \<Rightarrow> results
                        | Some b \<Rightarrow> AList.update k b results) keys []"

definition InMemoryCache_Store :: "InMemoryCache \<Rightarrow> (string, bytes) gomap \<Rightarrow> InMemoryCache" where
  "InMemoryCache_Store c data =
     c\<lparr>items := fold (\<lambda>(k, v). AList.update k v) data (items c), stored := stored c @ [data]\<rparr>"

text \<open>
  A value behind \<open>interface{}\<close>, told apart by its dynamic type: a \<open>*storepb.SeriesRequest\<close>,
  a \<open>*storepb.SeriesResponse\<close> (both pointing to an allocated message) or anything else.
  Every read is given a destination object of its own, as the generated \<open>Recv\<close> does with
  \<open>m := new(SeriesResponse)\<close>; the buffer of pointers to received messages is therefore kept
  as the list of the messages.
\<close>

datatype ('q, 'r) message = SeriesRequest 'q | SeriesResponse 'r | OtherMessage bytes

text \<open>
  The embedded \<open>grpc.ClientStream\<close> is the transport, an external collaborator. Its
  behaviour in one call is a script: \<open>recvScript k\<close> is what its \<open>k\<close>-th \<open>RecvMsg\<close> does (an
  error, or the destination object as the read leaves it), \<open>sendScript k\<close> what its \<open>k\<close>-th
  \<open>SendMsg\<close> returns. \<open>recvCalls\<close> counts the reads made of it and \<open>sentMsgs\<close> holds the
  messages handed to it.
\<close>

record ('q, 'r) ClientStream =
  recvScript :: "nat \<Rightarrow> error + ('q, 'r) message"
  recvCalls :: nat
  sendScript :: "nat \<Rightarrow> error option"
  sentMsgs :: "('q, 'r) message list"

definition ClientStream_RecvMsg ::
  "('q, 'r) ClientStream \<Rightarrow> ('q, 'r) message
     \<Rightarrow> error option \<times> ('q, 'r) message \<times> ('q, 'r) ClientStream" where
  "ClientStream_RecvMsg cs m =
     (case recvScript cs (recvCalls cs) of
        Inl err \<Rightarrow> (Some err, m, cs\<lparr>recvCalls := Suc (recvCalls cs)\<rparr>)
      | Inr m' \<Rightarrow> (None, m', cs\<lparr>recvCalls := Suc (recvCalls cs)\<rparr>))"

definition ClientStream_SendMsg ::
  "('q, 'r) ClientStream \<Rightarrow> ('q, 'r) message \<Rightarrow> error option \<times> ('q, 'r) ClientStream" where
  "ClientStream_SendMsg cs m =
     (sendScript cs (length (sentMsgs cs)), cs\<lparr>sentMsgs := sentMsgs cs @ [m]\<rparr>)"

subsection \<open>\<open>getResponses\<close> and \<open>putResponses\<close>\<close>

definition numKey :: "string \<Rightarrow> string" where
  "numKey reqSig = reqSig @ ''-num''"

definition indexKey :: "string \<Rightarrow> nat \<Rightarrow> string" where
  "indexKey reqSig i = reqSig @ ''-'' @ Sprintf_d (int i)"

definition errorText :: "error \<Rightarrow> string" where
  "errorText e = (case e of EOF \<Rightarrow> ''EOF'' | ErrKeyNotFound \<Rightarrow> ''Key not found'' | Error t \<Rightarrow> t)"

text \<open>The second loop of \<open>getResponses\<close>, over the remaining indices; a key missing from a Go
  map reads as the \<open>nil\<close> slice.\<close>

fun unmarshalAll ::
  "('q, 'r) externals \<Rightarrow> (string, bytes) gomap \<Rightarrow> string \<Rightarrow> nat list \<Rightarrow> 'r list
     \<Rightarrow> error + 'r list" where
  "unmarshalAll x fetchedData reqSig [] ret = Inr ret"
| "unmarshalAll x fetchedData reqSig (i # is) ret =
     (let data = (case map_of fetchedData (indexKey reqSig i) of None \<Rightarrow> [] | Some d \<Rightarrow> d)
      in case Unmarshal x data of
           Inl err \<Rightarrow> Inl (Error (''unmarshaling data from cache: '' @ errorText err))
         | Inr r \<Rightarrow> unmarshalAll x fetchedData reqSig is (ret @ [r]))"

text \<open>\<open>getResponses\<close>. \<open>make([]string, 0, numKeys)\<close> panics on a negative capacity and on
  one beyond \<open>maxCap\<close>.\<close>

definition getResponses ::
  "('q, 'r) externals \<Rightarrow> InMemoryCache \<Rightarrow> string \<Rightarrow> (error + 'r list) outcome" where
  "getResponses x c reqSig =
     (let numKeysKey = numKey reqSig;
          numKeysFetchRes = InMemoryCache_Fetch c [numKeysKey]
      in case map_of numKeysFetchRes numKeysKey of
           None \<Rightarrow> Return (Inl (Error ''not found num key''))
         | Some numKeysBytes \<Rightarrow>
             (case Sscanf_d numKeysBytes of
                None \<Rightarrow> Return (Inl (Error (''parsing '' @ numKeysBytes)))
              | Some numKeys \<Rightarrow>
                  if numKeys < 0 \<or> int (maxCap x) < numKeys
                  then Panic ''makeslice: cap out of range''
                  else
                    let fetchKeys = map (indexKey reqSig) [0..<nat numKeys];
                        fetchedData = InMemoryCache_Fetch c fetchKeys
                    in if int (length fetchedData) \<noteq> numKeys
                       then Return (Inl (Error (''got wrong number of keys: expected '' @
                              Sprintf_d numKeys @ '', got '' @
                              Sprintf_d (int (length fetchedData)))))
                       else Return (unmarshalAll x fetchedData reqSig [0..<nat numKeys] [])))"

text \<open>The map \<open>keys\<close> that \<open>putResponses\<close> builds, and \<open>putResponses\<close> itself (its own result
  is always \<open>nil\<close>; the model returns the cache after \<open>c.Store\<close>).\<close>

definition putResponses_keys ::
  "('q, 'r) externals \<Rightarrow> string \<Rightarrow> 'r list \<Rightarrow> (string, bytes) gomap" where
  "putResponses_keys x reqSig rs =
     fold (\<lambda>(i, resp). AList.update (indexKey reqSig i) (Marshal x resp)) (enumerate 0 rs)
       [(numKey reqSig, Sprintf_d (int (length rs)))]"

definition putResponses ::
  "('q, 'r) externals \<Rightarrow> InMemoryCache \<Rightarrow> string \<Rightarrow> 'r list \<Rightarrow> InMemoryCache" where
  "putResponses x c reqSig rs = InMemoryCache_Store c (putResponses_keys x reqSig rs)"

text \<open>
  A cache is intact for a chunked entry when every value it holds under a key of the entry
  is the entry's value for that key: keys of the entry may be gone from the cache, none
  holds anything else.
\<close>

definition intact :: "InMemoryCache \<Rightarrow> (string, bytes) gomap \<Rightarrow> bool" where
  "intact c0 entry =
     (\<forall>k v. map_of (items c0) k = Some v \<and> k \<in> fst ` set entry \<longrightarrow> map_of entry k = Some v)"

subsection \<open>The per-call wrapper \<open>seriesInterceptor\<close>\<close>

text \<open>\<open>strings.TrimPrefix\<close>, \<open>strings.Index\<close> for a one-byte separator, and
  \<open>splitMethodName\<close>.\<close>

definition TrimPrefix :: "string \<Rightarrow> string \<Rightarrow> string" where
  "TrimPrefix s p = (if take (length p) s = p then drop (length p) s else s)"

primrec Index :: "string \<Rightarrow> char \<Rightarrow> nat option" where
  "Index [] sep = None"
| "Index (ch # s) sep = (if ch = sep then Some 0 else map_option Suc (Index s sep))"

definition splitMethodName :: "string \<Rightarrow> string \<times> string" where
  "splitMethodName fullMethod =
     (let fm = TrimPrefix fullMethod ''/''
      in case Index fm CHR ''/'' of
           Some i \<Rightarrow> (take i fm, drop (i + 1) fm)
         | None \<Rightarrow> (''unknown'', ''unknown''))"

text \<open>
  The struct \<open>seriesInterceptor\<close>. The field \<open>c\<close> of the source is \<open>cache\<close> here. The cache and
  the counter \<open>cachedCalls\<close> are shared by all calls of one process; a call that follows
  another is given the cache and the counter as the earlier call left them.
\<close>

record ('q, 'r) seriesInterceptor =
  ClientStream :: "('q, 'r) ClientStream"
  target :: string
  cache :: InMemoryCache
  hashedReq :: string
  responses :: "'r list"
  cachedResponsesAvailable :: bool
  cachedCalls :: nat

definition hashReqTarget :: "('q, 'r) externals \<Rightarrow> 'q \<Rightarrow> string \<Rightarrow> string" where
  "hashReqTarget x r tgt = Sum (Sum64 x (tgt @ MarshalRequest x r))"

definition RecvMsg ::
  "('q, 'r) externals \<Rightarrow> ('q, 'r) seriesInterceptor \<Rightarrow> ('q, 'r) message
     \<Rightarrow> (error option \<times> ('q, 'r) message \<times> ('q, 'r) seriesInterceptor) outcome" where
  "RecvMsg x i m =
     (if hashedReq i = [] then
        (case ClientStream_RecvMsg (ClientStream i) m of
           (err, m', cs) \<Rightarrow> Return (err, m', i\<lparr>ClientStream := cs\<rparr>))
      else if cachedResponsesAvailable i then
        (case responses i of
           [] \<Rightarrow> Return (Some EOF, m, i)
         | r # rest \<Rightarrow>
             (case m of
                SeriesResponse resp \<Rightarrow> Return (None, SeriesResponse r, i\<lparr>responses := rest\<rparr>)
              | _ \<Rightarrow> Panic ''should be a series response type''))
      else
        (case ClientStream_RecvMsg (ClientStream i) m of
           (Some err, m', cs) \<Rightarrow>
             Return (Some err, m',
               if err = EOF \<and> length (responses i) > 0
               then i\<lparr>ClientStream := cs,
                      cache := putResponses x (cache i) (hashedReq i) (responses i)\<rparr>
               else i\<lparr>ClientStream := cs\<rparr>)
         | (None, m', cs) \<Rightarrow>
             (case m' of
                SeriesResponse resp \<Rightarrow>
                  Return (None, m', i\<lparr>ClientStream := cs, responses := responses i @ [resp]\<rparr>)
              | _ \<Rightarrow> Return (None, m', i\<lparr>ClientStream := cs\<rparr>))))"

text \<open>The last line of \<open>SendMsg\<close>: \<open>return i.ClientStream.SendMsg(m)\<close>.\<close>

definition forward ::
  "('q, 'r) seriesInterceptor \<Rightarrow> ('q, 'r) message
     \<Rightarrow> (error option \<times> ('q, 'r) seriesInterceptor) outcome" where
  "forward i m =
     (case ClientStream_SendMsg (ClientStream i) m of
        (err, cs) \<Rightarrow> Return (err, i\<lparr>ClientStream := cs\<rparr>))"

definition SendMsg ::
  "('q, 'r) externals \<Rightarrow> ('q, 'r) seriesInterceptor \<Rightarrow> ('q, 'r) message
     \<Rightarrow> (error option \<times> ('q, 'r) seriesInterceptor) outcome" where
  "SendMsg x i m =
     (case m of
        SeriesRequest req \<Rightarrow>
          (case getResponses x (cache i) (hashReqTarget x req (target i)) of
             Panic p \<Rightarrow> Panic p
           | Return (Inr rs) \<Rightarrow>
               forward (i\<lparr>hashedReq := hashReqTarget x req (target i), responses := rs,
                          cachedResponsesAvailable := True,
                          cachedCalls := Suc (cachedCalls i)\<rparr>) m
           | Return (Inl err) \<Rightarrow> forward (i\<lparr>hashedReq := hashReqTarget x req (target i)\<rparr>) m)
      | _ \<Rightarrow> forward i m)"

subsection \<open>The factory \<open>SeriesRequestCachingInterceptor\<close>\<close>

text \<open>The struct. Its counter, the field \<open>cachedCalls\<close> of the source, is
  \<open>cachedCallsTotal\<close> here; every wrapper is handed it.\<close>

record SeriesRequestCachingInterceptor =
  inmemoryCache :: InMemoryCache
  passthrough :: bool
  cachedCallsTotal :: nat

text \<open>
  \<open>NewSeriesRequestcachingInterceptor\<close>. \<open>newCache\<close> stands for
  \<open>cache.NewInMemoryCacheWithConfig\<close> with its fixed first three arguments; the counter made
  by \<open>promauto\<close> starts at zero.
\<close>

definition NewSeriesRequestcachingInterceptor ::
  "(InMemoryCacheConfig \<Rightarrow> error + InMemoryCache) \<Rightarrow> nat \<Rightarrow> nat
     \<Rightarrow> error + SeriesRequestCachingInterceptor" where
  "NewSeriesRequestcachingInterceptor newCache maxSize maxItemSize =
     (let maxItemSize = (if maxSize = 0 then 0 else maxItemSize)
      in case newCache \<lparr>MaxSize = maxSize, MaxItemSize = maxItemSize\<rparr> of
           Inl err \<Rightarrow> Inl err
         | Inr imc \<Rightarrow>
             Inr \<lparr>inmemoryCache = imc, passthrough = (maxSize = 0), cachedCallsTotal = 0\<rparr>)"

text \<open>What the interceptor hands back: the transport's own stream, or the wrapper.\<close>

datatype ('q, 'r) stream =
  Underlying "('q, 'r) ClientStream"
| Intercepted "('q, 'r) seriesInterceptor"

text \<open>
  The function returned by \<open>GetInterceptor\<close>. \<open>ccTarget\<close> is \<open>cc.Target()\<close>; \<open>streamer\<close> is the
  next streamer applied to the call's context, descriptor, connection and options, a
  function of the method name. When the streamer fails its error is handed back.
\<close>

definition GetInterceptor ::
  "SeriesRequestCachingInterceptor \<Rightarrow> string \<Rightarrow> string
     \<Rightarrow> (string \<Rightarrow> error + ('q, 'r) ClientStream) \<Rightarrow> error + ('q, 'r) stream" where
  "GetInterceptor i ccTarget method streamer =
     (case streamer method of
        Inl err \<Rightarrow> Inl err
      | Inr cs \<Rightarrow>
          if passthrough i then Inr (Underlying cs)
          else if splitMethodName method = (''thanos.Store'', ''Series'') then
            Inr (Intercepted \<lparr>ClientStream = cs, target = ccTarget, cache = inmemoryCache i,
                   hashedReq = [], responses = [], cachedResponsesAvailable = False,
                   cachedCalls = cachedCallsTotal i\<rparr>)
          else Inr (Underlying cs))"

subsection \<open>The caller's side\<close>

text \<open>
  A call is a sequence of operations on its stream, each answered by the returned error and
  the message object as the operation leaves it. \<open>run\<close> performs them on the wrapper,
  \<open>ClientStream_run\<close> on the transport's own stream.
\<close>

datatype ('q, 'r) operation = Send "('q, 'r) message" | Recv "('q, 'r) message"

fun run ::
  "('q, 'r) externals \<Rightarrow> ('q, 'r) seriesInterceptor \<Rightarrow> ('q, 'r) operation list
     \<Rightarrow> ((error option \<times> ('q, 'r) message) list \<times> ('q, 'r) seriesInterceptor) outcome" where
  "run x i [] = Return ([], i)"
| "run x i (Send m # ops) =
     (case SendMsg x i m of
        Panic p \<Rightarrow> Panic p
      | Return (err, i') \<Rightarrow>
          (case run x i' ops of
             Panic p \<Rightarrow> Panic p
           | Return (replies, i'') \<Rightarrow> Return ((err, m) # replies, i'')))"
| "run x i (Recv m # ops) =
     (case RecvMsg x i m of
        Panic p \<Rightarrow> Panic p
      | Return (err, m', i') \<Rightarrow>
          (case run x i' ops of
             Panic p \<Rightarrow> Panic p
           | Return (replies, i'') \<Rightarrow> Return ((err, m') # replies, i'')))"

fun ClientStream_run ::
  "('q, 'r) ClientStream \<Rightarrow> ('q, 'r) operation list
     \<Rightarrow> (error option \<times> ('q, 'r) message) list \<times> ('q, 'r) ClientStream" where
  "ClientStream_run cs [] = ([], cs)"
| "ClientStream_run cs (Send m # ops) =
     (case ClientStream_SendMsg cs m of
        (err, cs') \<Rightarrow>
          (case ClientStream_run cs' ops of (replies, cs'') \<Rightarrow> ((err, m) # replies, cs'')))"
| "ClientStream_run cs (Recv m # ops) =
     (case ClientStream_RecvMsg cs m of
        (err, m', cs') \<Rightarrow>
          (case ClientStream_run cs' ops of (replies, cs'') \<Rightarrow> ((err, m') # replies, cs'')))"

subsection \<open>Collaborators for concrete runs\<close>

text \<open>Messages that are their own wire form (with slices of up to \<open>2\<^sup>4\<^sup>4\<close> strings, as when
  \<open>2\<^sup>4\<^sup>8\<close> bytes can be allocated), a transport that plays a list of reads and
  then end-of-stream, an empty cache, the wrapper as \<open>GetInterceptor\<close> builds it, and a
  backend constructor that fails.\<close>

definition sampleExternals :: "(string, string) externals" where
  "sampleExternals =
     \<lparr>MarshalRequest = id, Marshal = id, Unmarshal = Inr, Sum64 = (\<lambda>b. of_nat (length b)),
      maxCap = 2 ^ 44\<rparr>"

definition scriptedStream ::
  "(error + (string, string) message) list \<Rightarrow> (string, string) ClientStream" where
  "scriptedStream script =
     \<lparr>recvScript = (\<lambda>k. if k < length script then script ! k else Inl EOF), recvCalls = 0,
      sendScript = (\<lambda>k. None), sentMsgs = []\<rparr>"

definition emptyCache :: InMemoryCache where
  "emptyCache = \<lparr>config = \<lparr>MaxSize = 1048576, MaxItemSize = 1024\<rparr>, items = [], stored = []\<rparr>"

definition freshInterceptor ::
  "(string, string) ClientStream \<Rightarrow> InMemoryCache \<Rightarrow> (string, string) seriesInterceptor" where
  "freshInterceptor cs c =
     \<lparr>ClientStream = cs, target = ''store-1:10901'', cache = c, hashedReq = [], responses = [],
      cachedResponsesAvailable = False, cachedCalls = 0\<rparr>"

definition failingNewCache :: "InMemoryCacheConfig \<Rightarrow> error + InMemoryCache" where
  "failingNewCache cfg = Inl (Error ''cannot create cache'')"

text \<open>The fingerprint of a sample request, the cache after three messages were recorded
  under it, two caches that hold only a count under it, and the transport that delivers
  these three messages.\<close>

definition sampleF :: string where
  "sampleF = hashReqTarget sampleExternals ''req'' ''store-1:10901''"

definition recordedCache :: InMemoryCache where
  "recordedCache = putResponses sampleExternals emptyCache sampleF [''m0'', ''m1'', ''m2'']"



definition threeMessages :: "(string, string) ClientStream" where
  "threeMessages =
     scriptedStream [Inr (SeriesResponse ''m0''), Inr (SeriesResponse ''m1''),
                     Inr (SeriesResponse ''m2'')]"


definition liveStream :: "(string, string) ClientStream" where
  "liveStream = scriptedStream [Inr (SeriesResponse ''live'')]"

definition okStreamer :: "string \<Rightarrow> error + (string, string) ClientStream" where
  "okStreamer method = Inr (scriptedStream [])"


section \<open>Properties of the tiered index cache\<close>

lemma findCore_Some:
  "findCore ls = Some i \<Longrightarrow> i < length ls \<and> ls ! i = coreLabel \<and> coreLabel \<notin> set (take i ls)"
proof (induction ls arbitrary: i)
  case Nil
  then show ?case by simp
next
  case (Cons l ls)
  show ?case
  proof (cases "l = coreLabel")
    case True
    with Cons.prems show ?thesis by simp
  next
    case False
    with Cons.prems obtain j where j: "findCore ls = Some j" "i = Suc j"
      by auto
    from Cons.IH [OF j(1)] False j(2) show ?thesis by simp
  qed
qed

lemma findCore_None: "findCore ls = None \<longleftrightarrow> coreLabel \<notin> set ls"
  by (induction ls) auto

lemma set_swap_out:
  assumes "i < length ls" and "ls ! i = x" and "count_list ls x \<le> 1"
  shows "set (butlast (ls[i := last ls])) = set ls - {x}"
proof -
  from assms(1,2) have split: "ls = take i ls @ x # drop (Suc i) ls"
    by (metis id_take_nth_drop)
  define ys zs where "ys = take i ls" and "zs = drop (Suc i) ls"
  with split have ls: "ls = ys @ x # zs" by simp
  have len: "length ys = i" using assms(1) by (simp add: ys_def)
  from assms(3) ls have "count_list ys x + count_list zs x = 0" by simp
  then have notin: "x \<notin> set ys" "x \<notin> set zs"
    by (simp_all add: count_list_0_iff)
  show ?thesis
  proof (cases "zs = []")
    case True
    with ls len have "ls[i := last ls] = ys @ [x]" by (simp add: list_update_append)
    with ls True notin show ?thesis by auto
  next
    case False
    with ls len have upd: "ls[i := last ls] = ys @ last zs # zs"
      by (simp add: list_update_append)
    from False have "butlast (ys @ last zs # zs) = ys @ last zs # butlast zs"
      by (simp add: butlast_append)
    moreover from False have "insert (last zs) (set (butlast zs)) = set zs"
      by (metis append_butlast_last_id insert_is_Un list.simps(15) set_append sup_commute
          empty_set)
    ultimately show ?thesis using upd ls notin by auto
  qed
qed

lemma extractCore_set:
  assumes "count_list L coreLabel \<le> 1"
  shows "set (fst (extractCore L)) = set L - {coreLabel}"
    and "snd (extractCore L) \<longleftrightarrow> coreLabel \<in> set L"
proof -
  show "set (fst (extractCore L)) = set L - {coreLabel}"
  proof (cases "findCore L")
    case None
    moreover from None have "coreLabel \<notin> set L" by (simp add: findCore_None)
    ultimately show ?thesis by (simp add: extractCore_def)
  next
    case (Some i)
    from findCore_Some [OF Some] assms show ?thesis
      by (simp add: extractCore_def Some set_swap_out)
  qed
  show "snd (extractCore L) \<longleftrightarrow> coreLabel \<in> set L"
  proof (cases "findCore L")
    case None
    moreover from None have "coreLabel \<notin> set L" by (simp add: findCore_None)
    ultimately show ?thesis by (simp add: extractCore_def)
  next
    case (Some i)
    from findCore_Some [OF Some] have "coreLabel \<in> set L" by (metis nth_mem)
    with Some show ?thesis by (simp add: extractCore_def)
  qed
qed

lemma complete_emptyFallback: "complete ls (emptyFallback blockID ls)"
  by (simp add: complete_def emptyFallback_def)

text \<open>
  Claim C2, as stated, fails when the routed label is requested twice. The loop stops at the
  first match, so the second occurrence of \<open>app=core\<close> goes to the fallback; the fallback
  (which never stores that label, and answers completely for the one label it is given)
  reports it missing while the disk store finds it: the label is both a hit and a miss.
\<close>

theorem FetchMultiPostings_duplicate_core:
  "complete [coreLabel] (emptyFallback ''b1'' [coreLabel]) \<and>
   FetchMultiPostings plainKey \<lparr>db = diskHolding ''v'', ic = emptyFallback\<rparr> ''b1''
       [coreLabel, coreLabel] = ([(coreLabel, ''v'')], [coreLabel]) \<and>
   \<not> complete [coreLabel, coreLabel]
       (FetchMultiPostings plainKey \<lparr>db = diskHolding ''v'', ic = emptyFallback\<rparr> ''b1''
          [coreLabel, coreLabel])"
  by (simp add: FetchMultiPostings_def extractCore_def viewCore_def diskHolding_def
      emptyFallback_def complete_def)

text \<open>
  Claim C2, amended: for every block ID and every requested label list \<open>L\<close> in which
  \<open>app=core\<close> occurs at most once, when the disk lookup of the routed label (made only if
  the label is requested) ends in a value or in key-not-found, and the wrapped fallback
  answers completely for the labels handed to it (the list \<open>fst (extractCore L)\<close>, which is
  \<open>L\<close> without its routed label), the hits and misses returned by \<open>FetchMultiPostings\<close> are exactly the labels of
  \<open>L\<close>, each once, and no label is both a hit and a miss.
\<close>

theorem FetchMultiPostings_complete:
  assumes once: "count_list L coreLabel \<le> 1"
    and disk: "coreLabel \<in> set L \<longrightarrow>
               db c (cacheKey blockID coreLabel) = Inl ErrKeyNotFound \<or>
               (\<exists>v. db c (cacheKey blockID coreLabel) = Inr (Item (Inr v)))"
    and fallback: "complete (fst (extractCore L)) (ic c blockID (fst (extractCore L)))"
  shows "complete L (FetchMultiPostings cacheKey c blockID L)"
proof -
  define L' where "L' = fst (extractCore L)"
  obtain fh fm where f: "ic c blockID L' = (fh, fm)"
    by (cases "ic c blockID L'")
  from fallback f have fb: "complete L' (fh, fm)"
    by (simp add: L'_def)
  have ex: "extractCore L = (L', coreLabel \<in> set L)"
    using extractCore_set(2) [OF once] by (simp add: L'_def prod_eq_iff)
  have L': "set L' = set L - {coreLabel}"
    using extractCore_set(1) [OF once] by (simp add: L'_def)
  show ?thesis
  proof (cases "coreLabel \<in> set L")
    case False
    with ex f fb L' show ?thesis
      by (simp add: FetchMultiPostings_def complete_def)
  next
    case True
    from fb L' have fresh: "coreLabel \<notin> fst ` set fh" "coreLabel \<notin> set fm"
      unfolding complete_def by auto
    from disk True
    have "db c (cacheKey blockID coreLabel) = Inl ErrKeyNotFound \<or>
          (\<exists>v. db c (cacheKey blockID coreLabel) = Inr (Item (Inr v)))"
      by simp
    then show ?thesis
    proof
      assume "db c (cacheKey blockID coreLabel) = Inl ErrKeyNotFound"
      with ex f True have "FetchMultiPostings cacheKey c blockID L = (fh, fm @ [coreLabel])"
        by (simp add: FetchMultiPostings_def viewCore_def)
      with fb L' True fresh show ?thesis
        unfolding complete_def by auto
    next
      assume "\<exists>v. db c (cacheKey blockID coreLabel) = Inr (Item (Inr v))"
      then obtain v where "db c (cacheKey blockID coreLabel) = Inr (Item (Inr v))" ..
      with ex f True
      have r: "FetchMultiPostings cacheKey c blockID L = (AList.update coreLabel v fh, fm)"
        by (simp add: FetchMultiPostings_def viewCore_def)
      from fb have "distinct (map fst (AList.update coreLabel v fh))"
        by (simp add: complete_def distinct_update)
      with fb L' True fresh show ?thesis
        unfolding complete_def r by (auto simp: dom_update)
    qed
  qed
qed

theorem FetchMultiPostings_complete_witness:
  "complete [\<lparr>Name = ''job'', Value = ''api''\<rparr>, coreLabel, \<lparr>Name = ''env'', Value = ''prod''\<rparr>]
     (FetchMultiPostings plainKey \<lparr>db = diskHolding ''v'', ic = emptyFallback\<rparr> ''b1''
        [\<lparr>Name = ''job'', Value = ''api''\<rparr>, coreLabel, \<lparr>Name = ''env'', Value = ''prod''\<rparr>])"
proof -
  have once: "count_list [\<lparr>Name = ''job'', Value = ''api''\<rparr>, coreLabel,
      \<lparr>Name = ''env'', Value = ''prod''\<rparr>] coreLabel \<le> 1"
    by (simp add: coreLabel_def)
  have disk: "coreLabel \<in> set [\<lparr>Name = ''job'', Value = ''api''\<rparr>, coreLabel,
      \<lparr>Name = ''env'', Value = ''prod''\<rparr>] \<longrightarrow>
      db \<lparr>db = diskHolding ''v'', ic = emptyFallback\<rparr> (plainKey ''b1'' coreLabel)
        = Inl ErrKeyNotFound \<or>
      (\<exists>v. db \<lparr>db = diskHolding ''v'', ic = emptyFallback\<rparr> (plainKey ''b1'' coreLabel)
        = Inr (Item (Inr v)))"
    by (simp add: diskHolding_def)
  have fallback: "complete
      (fst (extractCore [\<lparr>Name = ''job'', Value = ''api''\<rparr>, coreLabel,
         \<lparr>Name = ''env'', Value = ''prod''\<rparr>]))
      (ic \<lparr>db = diskHolding ''v'', ic = emptyFallback\<rparr> ''b1''
         (fst (extractCore [\<lparr>Name = ''job'', Value = ''api''\<rparr>, coreLabel,
            \<lparr>Name = ''env'', Value = ''prod''\<rparr>])))"
    by (simp add: complete_emptyFallback)
  show ?thesis
    by (rule FetchMultiPostings_complete
        [where cacheKey = plainKey and blockID = "''b1''", OF once disk fallback])
qed

text \<open>
  Claim C3 against the code: a disk read that fails with an error other than key-not-found
  leaves the routed label out of the misses (and out of the hits). Requested alone, with a
  fallback that holds nothing, \<open>app=core\<close> comes back in neither list.
\<close>

theorem FetchMultiPostings_read_error_not_a_miss:
  "FetchMultiPostings plainKey \<lparr>db = diskFailing (Error ''read failed''), ic = emptyFallback\<rparr>
     ''b1'' [coreLabel] = ([], [])"
  by (simp add: FetchMultiPostings_def extractCore_def viewCore_def diskFailing_def
      emptyFallback_def)


section \<open>Properties of the remote cache backend\<close>

lemma GetMulti_loop_keys:
  assumes "GetMulti_loop keys i resps acc = Return r"
    and "distinct (map fst acc)" and "fst ` set acc \<subseteq> set keys"
  shows "distinct (map fst r) \<and> fst ` set r \<subseteq> set keys"
  using assms
proof (induction keys i resps acc rule: GetMulti_loop.induct)
  case (1 keys i results)
  then show ?case by simp
next
  case (2 keys i resp resps results)
  show ?case
  proof (cases "ToString resp")
    case (Inl err)
    with 2 show ?thesis by simp
  next
    case (Inr val)
    with "2.prems"(1) have i: "i < length keys"
      by (simp split: if_splits)
    from "2.prems"(2) have d: "distinct (map fst (AList.update (keys ! i) val results))"
      by (rule distinct_update)
    from "2.prems"(3) i have k: "fst ` set (AList.update (keys ! i) val results) \<subseteq> set keys"
      by (simp add: dom_update)
    from "2.prems"(1) Inr i
    have "GetMulti_loop keys (Suc i) resps (AList.update (keys ! i) val results) = Return r"
      by simp
    from "2.IH"(2) [OF Inr i this d k] show ?thesis .
  qed
qed

lemma GetMulti_loop_returns:
  "i + length resps \<le> length keys \<Longrightarrow> \<exists>r. GetMulti_loop keys i resps acc = Return r"
proof (induction keys i resps acc rule: GetMulti_loop.induct)
  case (1 keys i results)
  then show ?case by simp
next
  case (2 keys i resp resps results)
  then show ?case by (cases "ToString resp") simp_all
qed

lemma set_update_subset: "set (AList.update k v al) \<subseteq> insert (k, v) (set al)"
  by (induction al) auto

lemma GetMulti_loop_found:
  assumes "GetMulti_loop keys i resps acc = Return r" and "(k, v) \<in> set r"
  shows "(k, v) \<in> set acc \<or>
         (\<exists>j<length resps. i + j < length keys \<and> keys ! (i + j) = k \<and>
                             ToString (resps ! j) = Inr v)"
  using assms
proof (induction keys i resps acc rule: GetMulti_loop.induct)
  case (1 keys i results)
  then show ?case by simp
next
  case (2 keys i resp resps results)
  show ?case
  proof (cases "ToString resp")
    case (Inl err)
    with "2.prems" have "GetMulti_loop keys (Suc i) resps results = Return r" by simp
    from "2.IH"(1) [OF Inl this "2.prems"(2)] show ?thesis
      by (auto intro: exI [of _ "Suc j" for j])
  next
    case (Inr val)
    with "2.prems"(1) have i: "i < length keys"
      by (simp split: if_splits)
    with "2.prems"(1) Inr
    have "GetMulti_loop keys (Suc i) resps (AList.update (keys ! i) val results) = Return r"
      by simp
    from "2.IH"(2) [OF Inr i this "2.prems"(2)]
    have "(k, v) \<in> set (AList.update (keys ! i) val results) \<or>
        (\<exists>j<length resps. Suc i + j < length keys \<and> keys ! (Suc i + j) = k \<and>
                            ToString (resps ! j) = Inr v)" .
    then show ?thesis
    proof
      assume "(k, v) \<in> set (AList.update (keys ! i) val results)"
      with set_update_subset have "(k, v) = (keys ! i, val) \<or> (k, v) \<in> set results"
        by fastforce
      with Inr i show ?thesis
        by (auto intro: exI [of _ 0])
    next
      assume "\<exists>j<length resps. Suc i + j < length keys \<and> keys ! (Suc i + j) = k \<and>
                            ToString (resps ! j) = Inr v"
      then show ?thesis
        by (auto intro: exI [of _ "Suc j" for j])
    qed
  qed
qed

lemma GetMulti_returns:
  assumes "length (fst (DoCacheMget c keys)) \<le> length keys"
  shows "\<exists>r. GetMulti c keys = Return r"
proof (cases "length keys = 0")
  case True
  then show ?thesis by (simp add: GetMulti_def)
next
  case False
  obtain resps err where d: "DoCacheMget c keys = (resps, err)"
    by (cases "DoCacheMget c keys")
  with assms have "0 + length resps \<le> length keys" by simp
  from GetMulti_loop_returns [OF this] False d show ?thesis
    by (simp add: GetMulti_def)
qed

lemma gomap_length_le:
  assumes "distinct (map fst r)" and "fst ` set r \<subseteq> set keys"
  shows "length r \<le> length keys"
proof -
  from assms(1) have "length r = card (fst ` set r)"
    by (metis distinct_card length_map set_map)
  also from assms(2) have "\<dots> \<le> card (set keys)"
    by (simp add: card_mono)
  also have "\<dots> \<le> length keys"
    by (rule card_length)
  finally show ?thesis .
qed

text \<open>
  Claim C9: for every key list, whenever \<open>Fetch\<close> returns, the keys of the hits map are
  pairwise distinct members of the requested key list, each entry is the value the reply
  holds at a position of its key, the requested-keys counter has grown
  by the number of requested keys and the hit-keys counter by the number of entries of the
  returned map, which is at most the number of requested keys. \<open>Fetch\<close> does return whenever
  the reply array has no more elements than there are keys (a multi-get answers with one
  element per key, and with none when it fails).
\<close>

theorem Fetch_contract:
  "(length (fst (DoCacheMget (redisClient c) keys)) \<le> length keys \<longrightarrow>
      (\<exists>results c'. Fetch c keys = Return (results, c'))) \<and>
   (\<forall>results c'. Fetch c keys = Return (results, c') \<longrightarrow>
      fst ` set results \<subseteq> set keys \<and> distinct (map fst results) \<and>
      requests c' = requests c + length keys \<and>
      hits c' = hits c + length results \<and>
      length results \<le> length keys \<and>
      (\<forall>k v. (k, v) \<in> set results \<longrightarrow>
         (\<exists>j<length keys. keys ! j = k \<and>
            j < length (fst (DoCacheMget (redisClient c) keys)) \<and>
            ToString (fst (DoCacheMget (redisClient c) keys) ! j) = Inr v)) \<and>
      redisClient c' = redisClient c \<and> name c' = name c)"
proof (intro conjI impI allI)
  assume "length (fst (DoCacheMget (redisClient c) keys)) \<le> length keys"
  then obtain r where "GetMulti (redisClient c) keys = Return r"
    using GetMulti_returns by blast
  then show "\<exists>results c'. Fetch c keys = Return (results, c')"
    by (simp add: Fetch_def)
next
  fix results c'
  assume ret: "Fetch c keys = Return (results, c')"
  then have g: "GetMulti (redisClient c) keys = Return results"
    and c': "c' = c\<lparr>requests := requests c + length keys, hits := hits c + length results\<rparr>"
    by (auto simp: Fetch_def Let_def split: outcome.splits)
  have kd: "distinct (map fst results) \<and> fst ` set results \<subseteq> set keys"
  proof (cases "length keys = 0")
    case True
    with g show ?thesis by (simp add: GetMulti_def)
  next
    case False
    with g have "GetMulti_loop keys 0 (fst (DoCacheMget (redisClient c) keys)) [] = Return results"
      by (simp add: GetMulti_def split: prod.splits)
    then show ?thesis by (rule GetMulti_loop_keys) simp_all
  qed
  have found: "\<forall>k v. (k, v) \<in> set results \<longrightarrow>
         (\<exists>j<length keys. keys ! j = k \<and>
            j < length (fst (DoCacheMget (redisClient c) keys)) \<and>
            ToString (fst (DoCacheMget (redisClient c) keys) ! j) = Inr v)"
  proof (cases "length keys = 0")
    case True
    with g show ?thesis by (simp add: GetMulti_def)
  next
    case False
    with g have l: "GetMulti_loop keys 0 (fst (DoCacheMget (redisClient c) keys)) [] =
        Return results"
      by (simp add: GetMulti_def split: prod.splits)
    show ?thesis
    proof (intro allI impI)
      fix k v assume "(k, v) \<in> set results"
      from GetMulti_loop_found [OF l this] show "\<exists>j<length keys. keys ! j = k \<and>
            j < length (fst (DoCacheMget (redisClient c) keys)) \<and>
            ToString (fst (DoCacheMget (redisClient c) keys) ! j) = Inr v"
        by auto
    qed
  qed
  show "\<exists>j<length keys. keys ! j = k \<and>
            j < length (fst (DoCacheMget (redisClient c) keys)) \<and>
            ToString (fst (DoCacheMget (redisClient c) keys) ! j) = Inr v"
    if "(k, v) \<in> set results" for k v
    using found that by blast
  from kd show "fst ` set results \<subseteq> set keys" by simp
  from kd show "distinct (map fst results)" by simp
  from c' show "requests c' = requests c + length keys" by simp
  from c' show "hits c' = hits c + length results" by simp
  from kd show "length results \<le> length keys" by (simp add: gomap_length_le)
  from c' show "redisClient c' = redisClient c" by simp
  from c' show "name c' = name c" by simp
qed

theorem Fetch_contract_witness:
  "Fetch \<lparr>redisClient = \<lparr>DoCacheMget = oneKeyService\<rparr>, name = ''redis'', requests = 10, hits = 4\<rparr>
       [''k0'', ''k1'', ''k2'']
     = Return ([(''k1'', ''v1'')],
         \<lparr>redisClient = \<lparr>DoCacheMget = oneKeyService\<rparr>, name = ''redis'', requests = 13,
          hits = 5\<rparr>) \<and>
   fst ` set [(''k1'', ''v1'')] \<subseteq> set [''k0'', ''k1'', ''k2''] \<and>
   length [(''k1'', ''v1'')] \<le> length [''k0'', ''k1'', ''k2'']"
proof -
  let ?c = "\<lparr>redisClient = \<lparr>DoCacheMget = oneKeyService\<rparr>, name = ''redis'', requests = 10,
    hits = 4\<rparr>"
  let ?keys = "[''k0'', ''k1'', ''k2'']"
  have len: "length (fst (DoCacheMget (redisClient ?c) ?keys)) \<le> length ?keys"
    by (simp add: oneKeyService_def)
  from Fetch_contract [of ?c ?keys] len
  obtain results c' where ret: "Fetch ?c ?keys = Return (results, c')"
    by blast
  with Fetch_contract [of ?c ?keys]
  have props: "fst ` set results \<subseteq> set ?keys" "length results \<le> length ?keys"
    by blast+
  have "Fetch ?c ?keys = Return ([(''k1'', ''v1'')],
      \<lparr>redisClient = \<lparr>DoCacheMget = oneKeyService\<rparr>, name = ''redis'', requests = 13, hits = 5\<rparr>)"
    by (simp add: Fetch_def GetMulti_def oneKeyService_def)
  with ret props show ?thesis by simp
qed


section \<open>Properties of the stream response cache\<close>

subsection \<open>Decimal counts\<close>

lemma digit_cases: "d < 10 \<Longrightarrow> d \<in> {0, 1, 2, 3, 4, 5, 6, 7, 8, 9::nat}"
  by auto

lemma digitChar_isDigit: "d < 10 \<Longrightarrow> isDigit (digitChar d)"
  by (drule digit_cases) (auto simp: isDigit_def digitChar_def)

lemma digitVal_digitChar: "d < 10 \<Longrightarrow> digitVal (digitChar d) = d"
  by (drule digit_cases) (auto simp: digitVal_def digitChar_def)

lemma isDigit_not_special:
  assumes "isDigit c"
  shows "c \<notin> set [CHR 0x09, CHR 0x0B, CHR 0x0C, CHR 0x0D, CHR 0x20, CHR 0xC2, CHR 0xE1, CHR 0xE2,
     CHR 0xE3, CHR ''-'', CHR ''+'', CHR ''_'', CHR ''n'']"
  using assms by (auto simp: isDigit_def)

lemma digits_nonempty: "digits n \<noteq> []"
  by (subst digits.simps) simp

lemma digits_isDigit: "c \<in> set (digits n) \<Longrightarrow> isDigit c"
proof (induction n rule: digits.induct)
  case (1 n)
  show ?case
  proof (cases "n < 10")
    case True
    from "1.prems" have "c \<in> set (if n < 10 then [digitChar n]
        else digits (n div 10) @ [digitChar (n mod 10)])"
      by (subst (asm) digits.simps)
    with True show ?thesis
      by (simp add: digitChar_isDigit)
  next
    case False
    from "1.prems" have "c \<in> set (if n < 10 then [digitChar n]
        else digits (n div 10) @ [digitChar (n mod 10)])"
      by (subst (asm) digits.simps)
    with False have "c \<in> set (digits (n div 10)) \<or> c = digitChar (n mod 10)"
      by auto
    with False "1.IH" show ?thesis
      by (auto simp: digitChar_isDigit)
  qed
qed

lemma decimal_snoc: "decimal (tok @ [c]) = 10 * decimal tok + digitVal c"
  by (simp add: decimal_def)

lemma decimal_digits: "decimal (digits n) = n"
proof (induction n rule: digits.induct)
  case (1 n)
  show ?case
  proof (cases "n < 10")
    case True
    then show ?thesis
      by (subst digits.simps) (simp add: decimal_def digitVal_digitChar)
  next
    case False
    with "1.IH" have "decimal (digits (n div 10)) = n div 10" by simp
    with False show ?thesis
      by (subst digits.simps) (simp add: decimal_snoc digitVal_digitChar)
  qed
qed

lemma digits_inj: "digits a = digits b \<Longrightarrow> a = b"
  by (metis decimal_digits)

lemma hd_digits: "\<exists>c cs. digits n = c # cs \<and> isDigit c"
proof (cases "digits n")
  case Nil
  then show ?thesis by (simp add: digits_nonempty)
next
  case (Cons c cs)
  then show ?thesis by (metis digits_isDigit list.set_intros(1))
qed

lemma spaceWidth_digit: "isDigit c \<Longrightarrow> spaceWidth (c # cs) = 0"
  by (drule isDigit_not_special) (simp add: spaceWidth_def)

lemma Sscanf_d_digits:
  assumes "n < 2 ^ 63"
  shows "Sscanf_d (digits n) = Some (int n)"
proof -
  obtain c cs where d: "digits n = c # cs" and c: "isDigit c"
    using hd_digits by blast
  from c have sk: "SkipSpace (digits n) = digits n"
    by (simp add: d spaceWidth_digit)
  from isDigit_not_special [OF c]
  have sign: "take 1 (digits n) \<noteq> ''-''" "take 1 (digits n) \<noteq> ''+''"
    by (simp_all add: d)
  have tok: "takeWhile isDigit (digits n) = digits n"
    by (simp add: takeWhile_eq_all_conv digits_isDigit)
  from assms sign show ?thesis
    by (simp add: Sscanf_d_def sk tok digits_nonempty decimal_digits)
qed

lemma Sprintf_d_nat [simp]: "Sprintf_d (int n) = digits n"
  by (simp add: Sprintf_d_def)

subsection \<open>Keys of a chunked entry\<close>

lemma indexKey_inj [simp]: "indexKey F a = indexKey F b \<longleftrightarrow> a = b"
  by (auto simp: indexKey_def dest: digits_inj)

lemma numKey_neq_indexKey [simp]: "numKey F \<noteq> indexKey F a" "indexKey F a \<noteq> numKey F"
proof -
  obtain c cs where d: "digits a = c # cs" and c: "isDigit c"
    using hd_digits by blast
  from isDigit_not_special [OF c] have "c \<noteq> CHR ''n''" by simp
  with d show "numKey F \<noteq> indexKey F a" "indexKey F a \<noteq> numKey F"
    by (auto simp: numKey_def indexKey_def)
qed

lemma update_fresh: "k \<notin> fst ` set al \<Longrightarrow> AList.update k v al = al @ [(k, v)]"
  by (induction al) auto

lemma fold_update_entries:
  assumes "\<forall>j\<ge>k. indexKey F j \<notin> fst ` set acc"
  shows "fold (\<lambda>(i, resp). AList.update (indexKey F i) (f resp)) (enumerate k rs) acc =
         acc @ map (\<lambda>(i, resp). (indexKey F i, f resp)) (enumerate k rs)"
  using assms
proof (induction rs arbitrary: k acc)
  case Nil
  then show ?case by simp
next
  case (Cons r rs)
  from Cons.prems have fresh: "indexKey F k \<notin> fst ` set acc" by simp
  have "\<forall>j\<ge>Suc k. indexKey F j \<notin> fst ` set (acc @ [(indexKey F k, f r)])"
    using Cons.prems by auto
  from Cons.IH [OF this] fresh show ?case
    by (simp add: update_fresh)
qed

lemma putResponses_keys_eq:
  "putResponses_keys x F rs =
     (numKey F, digits (length rs)) #
       map (\<lambda>(i, resp). (indexKey F i, Marshal x resp)) (enumerate 0 rs)"
  unfolding putResponses_keys_def
  by (subst fold_update_entries) simp_all

lemma map_of_entries:
  "map_of (map (\<lambda>(i, resp). (indexKey F i, f resp)) (enumerate k rs)) (indexKey F j) =
     (if k \<le> j \<and> j < k + length rs then Some (f (rs ! (j - k))) else None)"
proof (induction rs arbitrary: k)
  case Nil
  then show ?case by simp
next
  case (Cons r rs)
  show ?case
  proof (cases "j = k")
    case True
    then show ?thesis by simp
  next
    case False
    then have "k \<le> j \<longleftrightarrow> Suc k \<le> j" by auto
    moreover from False have "Suc k \<le> j \<Longrightarrow> j - k = Suc (j - Suc k)" by auto
    ultimately show ?thesis using False Cons.IH [of "Suc k"]
      by auto
  qed
qed

lemma putResponses_keys_num:
  "map_of (putResponses_keys x F rs) (numKey F) = Some (digits (length rs))"
  by (simp add: putResponses_keys_eq)

lemma putResponses_keys_index:
  "map_of (putResponses_keys x F rs) (indexKey F j) =
     (if j < length rs then Some (Marshal x (rs ! j)) else None)"
  using map_of_entries [of F "Marshal x" 0 rs j]
  by (simp add: putResponses_keys_eq)

lemma putResponses_keys_dom:
  "fst ` set (putResponses_keys x F rs) = insert (numKey F) (indexKey F ` {..<length rs})"
proof -
  have "fst ` set (map (\<lambda>(i, resp). (indexKey F i, Marshal x resp)) (enumerate 0 rs)) =
        indexKey F ` {..<length rs}"
    by (force simp: in_set_enumerate_eq image_iff)
  then show ?thesis
    by (simp add: putResponses_keys_eq)
qed

lemma putResponses_keys_distinct: "distinct (map fst (putResponses_keys x F rs))"
proof -
  have "map fst (map (\<lambda>(i, resp). (indexKey F i, Marshal x resp)) (enumerate 0 rs)) =
        map (indexKey F \<circ> fst) (enumerate 0 rs)"
    by (simp add: case_prod_unfold comp_def)
  also have "\<dots> = map (indexKey F) (map fst (enumerate 0 rs))"
    by (simp only: map_map)
  also have "\<dots> = map (indexKey F) [0..<length rs]"
    by (simp only: map_fst_enumerate add_0)
  finally have "map fst (map (\<lambda>(i, resp). (indexKey F i, Marshal x resp)) (enumerate 0 rs)) =
        map (indexKey F) [0..<length rs]" .
  moreover have "distinct (map (indexKey F) [0..<length rs])"
    by (simp add: distinct_map inj_on_def)
  ultimately show ?thesis
    by (auto simp: putResponses_keys_eq)
qed


subsection \<open>Single reads and the factory\<close>

text \<open>
  Claim C8: on every \<open>RecvMsg\<close> made while the interceptor replays a non-empty buffer, a
  destination that is not a \<open>*storepb.SeriesResponse\<close> stops execution with the panic
  \<open>should be a series response type\<close>, and nothing is delivered; a destination of that type
  receives the first buffered message, the buffer loses it, and there is no panic.
\<close>

theorem RecvMsg_replay_type_contract:
  assumes "hashedReq i \<noteq> []" and "cachedResponsesAvailable i" and "responses i = r # rest"
  shows "(\<forall>resp. m = SeriesResponse resp \<longrightarrow>
            RecvMsg x i m = Return (None, SeriesResponse r, i\<lparr>responses := rest\<rparr>)) \<and>
         ((\<forall>resp. m \<noteq> SeriesResponse resp) \<longrightarrow>
            RecvMsg x i m = Panic ''should be a series response type'')"
  using assms by (cases m) (simp_all add: RecvMsg_def)

theorem RecvMsg_replay_type_contract_witness:
  "RecvMsg sampleExternals
      ((freshInterceptor (scriptedStream []) emptyCache)
         \<lparr>hashedReq := ''F'', responses := [''m0'', ''m1''], cachedResponsesAvailable := True\<rparr>)
      (SeriesResponse [])
     = Return (None, SeriesResponse ''m0'',
         (freshInterceptor (scriptedStream []) emptyCache)
           \<lparr>hashedReq := ''F'', responses := [''m1''], cachedResponsesAvailable := True\<rparr>) \<and>
   RecvMsg sampleExternals
      ((freshInterceptor (scriptedStream []) emptyCache)
         \<lparr>hashedReq := ''F'', responses := [''m0'', ''m1''], cachedResponsesAvailable := True\<rparr>)
      (OtherMessage [])
     = Panic ''should be a series response type''"
  using RecvMsg_replay_type_contract
    [of "(freshInterceptor (scriptedStream []) emptyCache)
         \<lparr>hashedReq := ''F'', responses := [''m0'', ''m1''], cachedResponsesAvailable := True\<rparr>"
      "''m0''" "[''m1'']" "SeriesResponse []" sampleExternals]
    RecvMsg_replay_type_contract
    [of "(freshInterceptor (scriptedStream []) emptyCache)
         \<lparr>hashedReq := ''F'', responses := [''m0'', ''m1''], cachedResponsesAvailable := True\<rparr>"
      "''m0''" "[''m1'']" "OtherMessage []" sampleExternals]
  by (simp add: freshInterceptor_def)

lemma Store_stored: "stored (InMemoryCache_Store c0 d) = stored c0 @ [d]"
  by (simp add: InMemoryCache_Store_def)

text \<open>
  Claim C4, as stated, fails in its last part: the constructor builds the cache backend
  whatever the size. With maximum size zero it hands \<open>cache.NewInMemoryCacheWithConfig\<close> the
  configuration with both sizes zero and keeps the cache it gets; when that constructor
  fails, so does the interceptor's.
\<close>

theorem passthrough_constructs_backend:
  "NewSeriesRequestcachingInterceptor NewInMemoryCacheWithConfig 0 1024 =
     Inr \<lparr>inmemoryCache = \<lparr>config = \<lparr>MaxSize = 0, MaxItemSize = 0\<rparr>, items = [], stored = []\<rparr>,
          passthrough = True, cachedCallsTotal = 0\<rparr> \<and>
   NewSeriesRequestcachingInterceptor failingNewCache 0 1024 =
     Inl (Error ''cannot create cache'')"
  by (simp add: NewSeriesRequestcachingInterceptor_def NewInMemoryCacheWithConfig_def
      failingNewCache_def)

text \<open>
  Claim C4, amended: when the maximum total cache size is zero, the constructor still
  constructs the in-memory cache backend, with both sizes zero, and sets \<open>passthrough\<close>; the
  interceptor it returns hands back, for every call, exactly what the underlying streamer
  returned (the client stream unmodified, or its error), so no wrapper exists and nothing is
  fingerprinted.
\<close>

theorem passthrough_mode:
  "NewSeriesRequestcachingInterceptor newCache 0 maxItemSize =
     (case newCache \<lparr>MaxSize = 0, MaxItemSize = 0\<rparr> of
        Inl err \<Rightarrow> Inl err
      | Inr imc \<Rightarrow> Inr \<lparr>inmemoryCache = imc, passthrough = True, cachedCallsTotal = 0\<rparr>) \<and>
   (\<forall>i. NewSeriesRequestcachingInterceptor newCache 0 maxItemSize = Inr i \<longrightarrow>
      GetInterceptor i ccTarget method streamer =
        (case streamer method of Inl err \<Rightarrow> Inl err | Inr cs \<Rightarrow> Inr (Underlying cs)))"
  by (auto simp: NewSeriesRequestcachingInterceptor_def GetInterceptor_def split: sum.splits)

theorem passthrough_mode_witness:
  "GetInterceptor
     \<lparr>inmemoryCache = \<lparr>config = \<lparr>MaxSize = 0, MaxItemSize = 0\<rparr>, items = [], stored = []\<rparr>,
      passthrough = True, cachedCallsTotal = 0\<rparr>
     ''store-1:10901'' ''/thanos.Store/Series'' okStreamer = Inr (Underlying (scriptedStream []))"
proof -
  let ?i = "\<lparr>inmemoryCache = \<lparr>config = \<lparr>MaxSize = 0, MaxItemSize = 0\<rparr>, items = [], stored = []\<rparr>,
      passthrough = True, cachedCallsTotal = 0\<rparr>"
  from passthrough_mode
    [of NewInMemoryCacheWithConfig 1024 "''store-1:10901''" "''/thanos.Store/Series''" okStreamer]
  have new: "NewSeriesRequestcachingInterceptor NewInMemoryCacheWithConfig 0 1024 = Inr ?i"
    and get: "\<forall>i. NewSeriesRequestcachingInterceptor NewInMemoryCacheWithConfig 0 1024 = Inr i \<longrightarrow>
      GetInterceptor i ''store-1:10901'' ''/thanos.Store/Series'' okStreamer =
        (case okStreamer ''/thanos.Store/Series'' of
           Inl err \<Rightarrow> Inl err | Inr cs \<Rightarrow> Inr (Underlying cs))"
    by (simp_all add: NewInMemoryCacheWithConfig_def)
  from get new have "GetInterceptor ?i ''store-1:10901'' ''/thanos.Store/Series'' okStreamer =
        (case okStreamer ''/thanos.Store/Series'' of
           Inl err \<Rightarrow> Inl err | Inr cs \<Rightarrow> Inr (Underlying cs))"
    by blast
  then show ?thesis by (simp add: okStreamer_def)
qed

subsection \<open>Calls that never send a request\<close>

text \<open>
  Claim C10, amended: on a wrapper whose fingerprint is empty (as it is when the call
  begins), as long as no message sent is a \<open>*storepb.SeriesRequest\<close>, every operation goes
  straight to the underlying stream: the replies are those of the unwrapped stream, the
  fingerprint stays empty, and cache, buffer and counter are untouched. (A request sent
  after another message is treated in the last subsection.)
\<close>

theorem empty_fingerprint_transparent:
  assumes "hashedReq i = []" and "\<forall>op \<in> set ops. \<forall>q. op \<noteq> Send (SeriesRequest q)"
  shows "run x i ops =
           Return (fst (ClientStream_run (ClientStream i) ops),
                   i\<lparr>ClientStream := snd (ClientStream_run (ClientStream i) ops)\<rparr>)"
  using assms
proof (induction ops arbitrary: i)
  case Nil
  then show ?case by simp
next
  case (Cons op ops)
  show ?case
  proof (cases op)
    case (Send m)
    with Cons.prems(2) have nr: "\<forall>q. m \<noteq> SeriesRequest q" by auto
    obtain err cs where s: "ClientStream_SendMsg (ClientStream i) m = (err, cs)"
      by (cases "ClientStream_SendMsg (ClientStream i) m")
    from nr s have "SendMsg x i m = Return (err, i\<lparr>ClientStream := cs\<rparr>)"
      by (cases m) (auto simp: SendMsg_def forward_def)
    moreover from Cons.prems have "run x (i\<lparr>ClientStream := cs\<rparr>) ops =
        Return (fst (ClientStream_run cs ops), i\<lparr>ClientStream := snd (ClientStream_run cs ops)\<rparr>)"
      using Cons.IH [of "i\<lparr>ClientStream := cs\<rparr>"] by simp
    ultimately show ?thesis using Send s
      by (simp split: prod.splits)
  next
    case (Recv m)
    obtain err m' cs where r: "ClientStream_RecvMsg (ClientStream i) m = (err, m', cs)"
      by (cases "ClientStream_RecvMsg (ClientStream i) m")
    with Cons.prems(1) have "RecvMsg x i m = Return (err, m', i\<lparr>ClientStream := cs\<rparr>)"
      by (simp add: RecvMsg_def)
    moreover from Cons.prems have "run x (i\<lparr>ClientStream := cs\<rparr>) ops =
        Return (fst (ClientStream_run cs ops), i\<lparr>ClientStream := snd (ClientStream_run cs ops)\<rparr>)"
      using Cons.IH [of "i\<lparr>ClientStream := cs\<rparr>"] by simp
    ultimately show ?thesis using Recv r
      by (simp split: prod.splits)
  qed
qed

theorem empty_fingerprint_transparent_witness:
  "run sampleExternals (freshInterceptor (scriptedStream [Inr (SeriesResponse ''m0'')]) emptyCache)
     [Send (OtherMessage ''ping''), Recv (SeriesResponse []), Recv (SeriesResponse [])]
   = Return ([(None, OtherMessage ''ping''), (None, SeriesResponse ''m0''),
              (Some EOF, SeriesResponse [])],
       (freshInterceptor (scriptedStream [Inr (SeriesResponse ''m0'')]) emptyCache)
         \<lparr>ClientStream := (scriptedStream [Inr (SeriesResponse ''m0'')])
            \<lparr>recvCalls := 2, sentMsgs := [OtherMessage ''ping'']\<rparr>\<rparr>)"
proof -
  let ?i = "freshInterceptor (scriptedStream [Inr (SeriesResponse ''m0'')]) emptyCache"
  let ?ops = "[Send (OtherMessage ''ping''), Recv (SeriesResponse []), Recv (SeriesResponse [])]"
  have h1: "hashedReq ?i = []" by (simp add: freshInterceptor_def)
  have h2: "\<forall>op \<in> set ?ops. \<forall>q. op \<noteq> Send (SeriesRequest q)" by simp
  have "ClientStream_run (ClientStream ?i) ?ops =
      ([(None, OtherMessage ''ping''), (None, SeriesResponse ''m0''),
        (Some EOF, SeriesResponse [])],
       (scriptedStream [Inr (SeriesResponse ''m0'')])
         \<lparr>recvCalls := 2, sentMsgs := [OtherMessage ''ping'']\<rparr>)"
    by (simp add: freshInterceptor_def scriptedStream_def ClientStream_SendMsg_def
        ClientStream_RecvMsg_def)
  with empty_fingerprint_transparent [OF h1 h2, of sampleExternals] show ?thesis
    by simp
qed


subsection \<open>The cache contract\<close>

lemma Fetch_fold_map_of:
  "map_of (fold (\<lambda>k results. case map_of al k of None \<Rightarrow> results
                                | Some b \<Rightarrow> AList.update k b results) keys acc) k =
     (if k \<in> set keys \<and> map_of al k \<noteq> None then map_of al k else map_of acc k)"
proof (induction keys arbitrary: acc)
  case Nil
  then show ?case by simp
next
  case (Cons a keys)
  then show ?case
    by (cases "map_of al a") (auto simp: update_conv')
qed

lemma Fetch_map_of:
  "map_of (InMemoryCache_Fetch c0 keys) k =
     (if k \<in> set keys then map_of (items c0) k else None)"
  by (simp add: InMemoryCache_Fetch_def Fetch_fold_map_of)

lemma Fetch_fold_length:
  assumes "distinct keys" and "set keys \<inter> fst ` set acc = {}"
  shows "length (fold (\<lambda>k results. case map_of al k of None \<Rightarrow> results
                                | Some b \<Rightarrow> AList.update k b results) keys acc) =
         length acc + length (filter (\<lambda>k. map_of al k \<noteq> None) keys)"
  using assms
proof (induction keys arbitrary: acc)
  case Nil
  then show ?case by simp
next
  case (Cons a keys)
  show ?case
  proof (cases "map_of al a")
    case None
    with Cons show ?thesis by simp
  next
    case (Some b)
    from Cons.prems have fresh: "a \<notin> fst ` set acc" by auto
    then have upd: "AList.update a b acc = acc @ [(a, b)]" by (rule update_fresh)
    from Cons.prems have "distinct keys" "set keys \<inter> fst ` set (acc @ [(a, b)]) = {}"
      by auto
    from Cons.IH [OF this] Some upd show ?thesis by simp
  qed
qed

lemma Fetch_length:
  "distinct keys \<Longrightarrow>
     length (InMemoryCache_Fetch c0 keys) =
       length (filter (\<lambda>k. map_of (items c0) k \<noteq> None) keys)"
  by (simp add: InMemoryCache_Fetch_def Fetch_fold_length)

lemma Fetch_all_present:
  assumes "distinct keys" and "length (InMemoryCache_Fetch c0 keys) = length keys"
  shows "\<forall>k \<in> set keys. map_of (items c0) k \<noteq> None"
proof (rule ccontr)
  assume "\<not> (\<forall>k \<in> set keys. map_of (items c0) k \<noteq> None)"
  then obtain k where "k \<in> set keys" "\<not> map_of (items c0) k \<noteq> None" by blast
  then have "length (filter (\<lambda>k. map_of (items c0) k \<noteq> None) keys) < length keys"
    by (rule length_filter_less)
  with assms show False by (simp add: Fetch_length)
qed

lemma indexKeys_distinct: "distinct (map (indexKey F) [0..<n])"
  by (simp add: distinct_map inj_on_def)

lemma fold_update_map_of:
  "distinct (map fst d) \<Longrightarrow>
     map_of (fold (\<lambda>(k, v). AList.update k v) d al) = map_of al ++ map_of d"
proof (induction d arbitrary: al)
  case Nil
  show ?case by simp
next
  case (Cons p d)
  obtain k v where p: "p = (k, v)" by (cases p)
  from Cons.prems p have k: "map_of d k = None" and d: "distinct (map fst d)"
    by (simp_all add: map_of_eq_None_iff)
  have "fold (\<lambda>(k, v). AList.update k v) (p # d) al =
        fold (\<lambda>(k, v). AList.update k v) d (AList.update k v al)"
    by (simp add: p)
  also have "map_of \<dots> = map_of (AList.update k v al) ++ map_of d"
    by (rule Cons.IH [OF d])
  also have "\<dots> = map_of al ++ map_of (p # d)"
  proof (rule ext)
    fix k'
    show "(map_of (AList.update k v al) ++ map_of d) k' = (map_of al ++ map_of (p # d)) k'"
      using k by (cases "k' = k") (simp_all add: p update_conv' map_add_def split: option.splits)
  qed
  finally show ?case .
qed

lemma Store_map_of:
  "distinct (map fst d) \<Longrightarrow>
     map_of (items (InMemoryCache_Store c0 d)) = map_of (items c0) ++ map_of d"
  by (simp add: InMemoryCache_Store_def fold_update_map_of)

subsection \<open>Deserialising the entries\<close>

lemma unmarshalAll_ok:
  assumes "\<forall>j \<in> set js. Unmarshal x (case map_of fd (indexKey F j) of None \<Rightarrow> [] | Some d \<Rightarrow> d)
             = Inr (g j)"
  shows "unmarshalAll x fd F js ret = Inr (ret @ map g js)"
  using assms by (induction js arbitrary: ret) simp_all

lemma unmarshalAll_fails:
  assumes "j \<in> set js"
    and "Unmarshal x (case map_of fd (indexKey F j) of None \<Rightarrow> [] | Some d \<Rightarrow> d) = Inl e"
  shows "\<exists>e'. unmarshalAll x fd F js ret = Inl e'"
  using assms
proof (induction js arbitrary: ret)
  case Nil
  then show ?case by simp
next
  case (Cons a js)
  show ?case
  proof (cases "Unmarshal x (case map_of fd (indexKey F a) of None \<Rightarrow> [] | Some d \<Rightarrow> d)")
    case (Inl e0)
    then show ?thesis by simp
  next
    case (Inr r)
    with Cons.prems have "j \<in> set js" by auto
    from Cons.IH [OF this Cons.prems(2)] Inr show ?thesis by simp
  qed
qed

subsection \<open>Lookup\<close>

lemma getResponses_unfold:
  "getResponses x c0 F =
     (case map_of (items c0) (numKey F) of
        None \<Rightarrow> Return (Inl (Error ''not found num key''))
      | Some b \<Rightarrow>
          (case Sscanf_d b of
             None \<Rightarrow> Return (Inl (Error (''parsing '' @ b)))
           | Some N \<Rightarrow>
               if N < 0 \<or> int (maxCap x) < N then Panic ''makeslice: cap out of range''
               else if int (length (InMemoryCache_Fetch c0 (map (indexKey F) [0..<nat N]))) \<noteq> N
               then Return (Inl (Error (''got wrong number of keys: expected '' @
                      Sprintf_d N @ '', got '' @
                      Sprintf_d (int (length
                        (InMemoryCache_Fetch c0 (map (indexKey F) [0..<nat N])))))))
               else Return (unmarshalAll x
                      (InMemoryCache_Fetch c0 (map (indexKey F) [0..<nat N])) F [0..<nat N] [])))"
  by (simp add: getResponses_def Fetch_map_of Let_def split: option.splits)

lemma getResponses_malformed:
  "map_of (items c0) (numKey F) = Some b \<Longrightarrow> Sscanf_d b = None \<Longrightarrow>
     getResponses x c0 F = Return (Inl (Error (''parsing '' @ b)))"
  by (simp add: getResponses_unfold)

lemma getResponses_short:
  assumes "map_of (items c0) (numKey F) = Some b" and "Sscanf_d b = Some (int N)"
    and "N \<le> maxCap x"
    and "length (InMemoryCache_Fetch c0 (map (indexKey F) [0..<N])) < N"
  shows "\<exists>e. getResponses x c0 F = Return (Inl e)"
  using assms by (simp add: getResponses_unfold)

lemma fetched_entry:
  "j < N \<Longrightarrow> map_of (InMemoryCache_Fetch c0 (map (indexKey F) [0..<N])) (indexKey F j) =
     map_of (items c0) (indexKey F j)"
  by (simp add: Fetch_map_of)

lemma getResponses_bad_entry:
  assumes "map_of (items c0) (numKey F) = Some b" and "Sscanf_d b = Some (int N)"
    and "j < N"
    and "Unmarshal x (case map_of (items c0) (indexKey F j) of None \<Rightarrow> [] | Some d \<Rightarrow> d) = Inl e"
    and "N \<le> maxCap x"
  shows "\<exists>e'. getResponses x c0 F = Return (Inl e')"
proof -
  let ?fd = "InMemoryCache_Fetch c0 (map (indexKey F) [0..<N])"
  from assms(3,4)
  have "Unmarshal x (case map_of ?fd (indexKey F j) of None \<Rightarrow> [] | Some d \<Rightarrow> d) = Inl e"
    by (simp add: fetched_entry)
  moreover from assms(3) have "j \<in> set [0..<N]" by simp
  ultimately obtain e' where "unmarshalAll x ?fd F [0..<N] [] = Inl e'"
    using unmarshalAll_fails by blast
  with assms(1,2,5) show ?thesis
    by (simp add: getResponses_unfold)
qed

lemma getResponses_intact:
  assumes codec: "\<forall>r. Unmarshal x (Marshal x r) = Inr r"
    and len: "length Ms < 2 ^ 63"
    and intact: "intact c0 (putResponses_keys x F Ms)"
    and ok: "getResponses x c0 F = Return (Inr rs)"
  shows "rs = Ms"
proof -
  let ?E = "putResponses_keys x F Ms"
  let ?n = "length Ms"
  let ?fd = "InMemoryCache_Fetch c0 (map (indexKey F) [0..<?n])"
  from ok obtain b where b: "map_of (items c0) (numKey F) = Some b"
    by (cases "map_of (items c0) (numKey F)") (simp_all add: getResponses_unfold)
  have "numKey F \<in> fst ` set ?E" by (simp add: putResponses_keys_dom)
  with intact b have "map_of ?E (numKey F) = Some b"
    unfolding intact_def by blast
  then have b': "b = digits ?n" by (simp add: putResponses_keys_num)
  have scan: "Sscanf_d b = Some (int ?n)"
    unfolding b' using len by (rule Sscanf_d_digits)
  from ok b scan have full: "length ?fd = ?n"
    and un: "unmarshalAll x ?fd F [0..<?n] [] = Inr rs"
    by (simp_all add: getResponses_unfold split: if_splits)
  from full have "\<forall>k \<in> set (map (indexKey F) [0..<?n]). map_of (items c0) k \<noteq> None"
    by (intro Fetch_all_present indexKeys_distinct) simp
  then have present: "\<And>j. j < ?n \<Longrightarrow> map_of (items c0) (indexKey F j) \<noteq> None"
    by simp
  have entry: "map_of ?fd (indexKey F j) = Some (Marshal x (Ms ! j))" if "j < ?n" for j
  proof -
    from present [OF that] obtain v where v: "map_of (items c0) (indexKey F j) = Some v"
      by blast
    from that have "indexKey F j \<in> fst ` set ?E" by (simp add: putResponses_keys_dom)
    with intact v have "map_of ?E (indexKey F j) = Some v"
      unfolding intact_def by blast
    with that have "v = Marshal x (Ms ! j)" by (simp add: putResponses_keys_index)
    with v that show ?thesis by (simp add: fetched_entry)
  qed
  have "\<forall>j \<in> set [0..<?n].
      Unmarshal x (case map_of ?fd (indexKey F j) of None \<Rightarrow> [] | Some d \<Rightarrow> d) = Inr (Ms ! j)"
    using entry codec by simp
  then have "unmarshalAll x ?fd F [0..<?n] [] = Inr ([] @ map (\<lambda>j. Ms ! j) [0..<?n])"
    by (rule unmarshalAll_ok)
  with un show ?thesis by (simp add: map_nth)
qed

lemma intact_putResponses: "intact (putResponses x c0 F Ms) (putResponses_keys x F Ms)"
  by (auto simp: intact_def putResponses_def Store_map_of putResponses_keys_distinct
      map_add_def map_of_eq_None_iff split: option.splits)

lemma getResponses_putResponses:
  assumes codec: "\<forall>r. Unmarshal x (Marshal x r) = Inr r"
    and len: "length Ms < 2 ^ 63"
    and cap: "length Ms \<le> maxCap x"
  shows "getResponses x (putResponses x c0 F Ms) F = Return (Inr Ms)"
proof -
  let ?E = "putResponses_keys x F Ms"
  let ?c = "putResponses x c0 F Ms"
  let ?n = "length Ms"
  let ?fd = "InMemoryCache_Fetch ?c (map (indexKey F) [0..<?n])"
  have items: "map_of (items ?c) k = map_of ?E k" if "k \<in> fst ` set ?E" for k
    using that
    by (auto simp: putResponses_def Store_map_of putResponses_keys_distinct map_add_def
        map_of_eq_None_iff split: option.splits)
  have num: "map_of (items ?c) (numKey F) = Some (digits ?n)"
    by (simp add: items putResponses_keys_dom putResponses_keys_num)
  have idx: "map_of (items ?c) (indexKey F j) = Some (Marshal x (Ms ! j))" if "j < ?n" for j
    using that by (simp add: items putResponses_keys_dom putResponses_keys_index)
  have "filter (\<lambda>k. map_of (items ?c) k \<noteq> None) (map (indexKey F) [0..<?n]) =
        map (indexKey F) [0..<?n]"
    by (simp add: filter_id_conv idx)
  then have full: "length ?fd = ?n"
    by (simp add: Fetch_length indexKeys_distinct)
  have "\<forall>j \<in> set [0..<?n].
      Unmarshal x (case map_of ?fd (indexKey F j) of None \<Rightarrow> [] | Some d \<Rightarrow> d) = Inr (Ms ! j)"
    using idx codec by (simp add: fetched_entry)
  then have "unmarshalAll x ?fd F [0..<?n] [] = Inr ([] @ map (\<lambda>j. Ms ! j) [0..<?n])"
    by (rule unmarshalAll_ok)
  then have "unmarshalAll x ?fd F [0..<?n] [] = Inr Ms"
    by (simp add: map_nth)
  with num full len cap show ?thesis
    by (simp add: getResponses_unfold Sscanf_d_digits)
qed

subsection \<open>Sending the request\<close>

lemma hashReqTarget_nonempty: "hashReqTarget x q tgt \<noteq> []"
  by (simp add: hashReqTarget_def Sum_def)

lemma SendMsg_miss:
  assumes "getResponses x (cache i) (hashReqTarget x q (target i)) = Return (Inl e)"
  shows "SendMsg x i (SeriesRequest q) =
           Return (fst (ClientStream_SendMsg (ClientStream i) (SeriesRequest q)),
                   i\<lparr>ClientStream := snd (ClientStream_SendMsg (ClientStream i) (SeriesRequest q)),
                     hashedReq := hashReqTarget x q (target i)\<rparr>)"
  using assms by (simp add: SendMsg_def forward_def split: prod.splits)

lemma SendMsg_hit:
  assumes "getResponses x (cache i) (hashReqTarget x q (target i)) = Return (Inr rs)"
  shows "SendMsg x i (SeriesRequest q) =
           Return (fst (ClientStream_SendMsg (ClientStream i) (SeriesRequest q)),
                   i\<lparr>ClientStream := snd (ClientStream_SendMsg (ClientStream i) (SeriesRequest q)),
                     hashedReq := hashReqTarget x q (target i), responses := rs,
                     cachedResponsesAvailable := True, cachedCalls := Suc (cachedCalls i)\<rparr>)"
  using assms by (simp add: SendMsg_def forward_def split: prod.splits)

lemma SendMsg_cases:
  assumes "SendMsg x i (SeriesRequest q) = Return (err, i')"
  shows "(\<exists>e. getResponses x (cache i) (hashReqTarget x q (target i)) = Return (Inl e)) \<or>
         (\<exists>rs. getResponses x (cache i) (hashReqTarget x q (target i)) = Return (Inr rs))"
proof (cases "getResponses x (cache i) (hashReqTarget x q (target i))")
  case (Panic p)
  with assms show ?thesis by (simp add: SendMsg_def)
next
  case (Return r)
  then show ?thesis by (cases r) simp_all
qed

subsection \<open>Sequences of reads\<close>

lemma run_replay:
  assumes "hashedReq i \<noteq> []" and "cachedResponsesAvailable i" and "responses i = Ms"
    and "length ds = length Ms"
  shows "run x i (map (\<lambda>d. Recv (SeriesResponse d)) ds @ [Recv m]) =
           Return (map (\<lambda>M. (None, SeriesResponse M)) Ms @ [(Some EOF, m)], i\<lparr>responses := []\<rparr>)"
  using assms
proof (induction Ms arbitrary: i ds)
  case Nil
  then have "i\<lparr>responses := []\<rparr> = i" by (cases i) simp
  with Nil show ?case by (simp add: RecvMsg_def)
next
  case (Cons M Ms)
  from Cons.prems(4) obtain d ds' where ds: "ds = d # ds'" "length ds' = length Ms"
    by (cases ds) auto
  from Cons.prems have r: "RecvMsg x i (SeriesResponse d) =
      Return (None, SeriesResponse M, i\<lparr>responses := Ms\<rparr>)"
    by (simp add: RecvMsg_def)
  from Cons.prems ds(2)
  have "run x (i\<lparr>responses := Ms\<rparr>) (map (\<lambda>d. Recv (SeriesResponse d)) ds' @ [Recv m]) =
      Return (map (\<lambda>M. (None, SeriesResponse M)) Ms @ [(Some EOF, m)],
        i\<lparr>responses := Ms\<rparr>\<lparr>responses := []\<rparr>)"
    by (intro Cons.IH) simp_all
  with r ds(1) show ?case by simp
qed

lemma run_record:
  assumes "hashedReq i \<noteq> []" and "\<not> cachedResponsesAvailable i"
    and "\<forall>k<length Ms. recvScript (ClientStream i) (recvCalls (ClientStream i) + k) =
           Inr (SeriesResponse (Ms ! k))"
    and "length ds = length Ms"
  shows "run x i (map Recv ds) =
           Return (map (\<lambda>M. (None, SeriesResponse M)) Ms,
             i\<lparr>ClientStream := (ClientStream i)\<lparr>recvCalls := recvCalls (ClientStream i) + length Ms\<rparr>,
               responses := responses i @ Ms\<rparr>)"
  using assms
proof (induction Ms arbitrary: i ds)
  case Nil
  have "i\<lparr>ClientStream := (ClientStream i)\<lparr>recvCalls := recvCalls (ClientStream i)\<rparr>,
          responses := responses i\<rparr> = i"
    by (cases i) simp
  with Nil show ?case by simp
next
  case (Cons M Ms)
  from Cons.prems(4) obtain d ds' where ds: "ds = d # ds'" "length ds' = length Ms"
    by (cases ds) auto
  let ?cs = "(ClientStream i)\<lparr>recvCalls := Suc (recvCalls (ClientStream i))\<rparr>"
  let ?i1 = "i\<lparr>ClientStream := ?cs, responses := responses i @ [M]\<rparr>"
  from Cons.prems(3) have "recvScript (ClientStream i) (recvCalls (ClientStream i)) =
      Inr (SeriesResponse M)"
    by force
  with Cons.prems(1,2) have r: "RecvMsg x i d = Return (None, SeriesResponse M, ?i1)"
    by (simp add: RecvMsg_def ClientStream_RecvMsg_def)
  have "\<forall>k<length Ms. recvScript (ClientStream ?i1) (recvCalls (ClientStream ?i1) + k) =
      Inr (SeriesResponse (Ms ! k))"
  proof (intro allI impI)
    fix k assume "k < length Ms"
    with Cons.prems(3) have "recvScript (ClientStream i) (recvCalls (ClientStream i) + Suc k) =
        Inr (SeriesResponse ((M # Ms) ! Suc k))"
      by (metis Suc_less_eq length_Cons)
    then show "recvScript (ClientStream ?i1) (recvCalls (ClientStream ?i1) + k) =
        Inr (SeriesResponse (Ms ! k))"
      by simp
  qed
  with Cons.prems(1,2) ds(2)
  have "run x ?i1 (map Recv ds') =
      Return (map (\<lambda>M. (None, SeriesResponse M)) Ms,
        ?i1\<lparr>ClientStream := (ClientStream ?i1)\<lparr>recvCalls := recvCalls (ClientStream ?i1) + length Ms\<rparr>,
             responses := responses ?i1 @ Ms\<rparr>)"
    by (intro Cons.IH) simp_all
  with r ds(1) show ?case by simp
qed

lemma run_append:
  "run x i (ops @ ops') =
     (case run x i ops of
        Panic p \<Rightarrow> Panic p
      | Return (replies, i') \<Rightarrow>
          (case run x i' ops' of
             Panic p \<Rightarrow> Panic p
           | Return (replies', i'') \<Rightarrow> Return (replies @ replies', i'')))"
proof (induction ops arbitrary: i)
  case Nil
  show ?case by (simp split: outcome.splits prod.splits)
next
  case (Cons op ops)
  show ?case
    by (cases op) (simp_all add: Cons.IH split: outcome.splits prod.splits)
qed

lemma RecvMsg_not_cached:
  assumes "\<not> cachedResponsesAvailable i"
  shows "\<exists>i'. RecvMsg x i m =
           Return (fst (ClientStream_RecvMsg (ClientStream i) m),
                   fst (snd (ClientStream_RecvMsg (ClientStream i) m)), i') \<and>
         ClientStream i' = snd (snd (ClientStream_RecvMsg (ClientStream i) m)) \<and>
         \<not> cachedResponsesAvailable i'"
proof (cases "recvScript (ClientStream i) (recvCalls (ClientStream i))")
  case (Inl e)
  with assms show ?thesis
    by (simp add: RecvMsg_def ClientStream_RecvMsg_def)
next
  case (Inr m')
  with assms show ?thesis
    by (cases m') (simp_all add: RecvMsg_def ClientStream_RecvMsg_def)
qed

lemma run_not_cached:
  assumes "\<not> cachedResponsesAvailable i"
  shows "\<exists>i'. run x i (map Recv ds) =
           Return (fst (ClientStream_run (ClientStream i) (map Recv ds)), i')"
  using assms
proof (induction ds arbitrary: i)
  case Nil
  show ?case by simp
next
  case (Cons d ds)
  from RecvMsg_not_cached [OF Cons.prems, of x d] obtain i1 where
    r: "RecvMsg x i d = Return (fst (ClientStream_RecvMsg (ClientStream i) d),
          fst (snd (ClientStream_RecvMsg (ClientStream i) d)), i1)"
    and cs: "ClientStream i1 = snd (snd (ClientStream_RecvMsg (ClientStream i) d))"
    and nc: "\<not> cachedResponsesAvailable i1"
    by blast
  from Cons.IH [OF nc] obtain i' where
    "run x i1 (map Recv ds) = Return (fst (ClientStream_run (ClientStream i1) (map Recv ds)), i')"
    by blast
  with r cs show ?case
    by (simp split: prod.splits)
qed

subsection \<open>Whole calls\<close>

text \<open>
  Claim C1: let the messages \<open>M\<^sub>1 \<dots> M\<^sub>n\<close> be recorded under the fingerprint \<open>F\<close>, that is, let
  the cache be intact for the chunked entry \<open>putResponses\<close> writes for them. When a later
  call sends a request that hashes to \<open>F\<close> and its lookup succeeds, then \<open>n\<close> successive
  \<open>RecvMsg\<close> calls deliver \<open>M\<^sub>1 \<dots> M\<^sub>n\<close> in this order, the next one returns \<open>io.EOF\<close>, and
  the wrapper ends as it was after the send but for the emptied buffer: the transport is
  untouched, its \<open>RecvMsg\<close> was not invoked. (The messages deserialise to themselves, and
  \<open>n\<close> fits an \<open>int\<close>.)
\<close>

theorem stream_cache_round_trip:
  assumes codec: "\<forall>r. Unmarshal x (Marshal x r) = Inr r"
    and len: "length Ms < 2 ^ 63"
    and fresh: "\<not> cachedResponsesAvailable i"
    and intact: "intact (cache i) (putResponses_keys x (hashReqTarget x q (target i)) Ms)"
    and lookup: "SendMsg x i (SeriesRequest q) = Return (err, i')" "cachedResponsesAvailable i'"
    and dsts: "length ds = length Ms"
  shows "run x i' (map (\<lambda>d. Recv (SeriesResponse d)) ds @ [Recv m]) =
           Return (map (\<lambda>M. (None, SeriesResponse M)) Ms @ [(Some EOF, m)],
                   i'\<lparr>responses := []\<rparr>)"
proof -
  let ?F = "hashReqTarget x q (target i)"
  from SendMsg_cases [OF lookup(1)] show ?thesis
  proof
    assume "\<exists>e. getResponses x (cache i) ?F = Return (Inl e)"
    then obtain e where "getResponses x (cache i) ?F = Return (Inl e)" ..
    from SendMsg_miss [OF this] lookup(1) fresh have "\<not> cachedResponsesAvailable i'"
      by auto
    with lookup(2) show ?thesis by simp
  next
    assume "\<exists>rs. getResponses x (cache i) ?F = Return (Inr rs)"
    then obtain rs where rs: "getResponses x (cache i) ?F = Return (Inr rs)" ..
    from getResponses_intact [OF codec len intact rs] have "rs = Ms" .
    with SendMsg_hit [OF rs] lookup(1)
    have "hashedReq i' = ?F" "responses i' = Ms"
      by auto
    with lookup(2) dsts show ?thesis
      by (intro run_replay) (simp_all add: hashReqTarget_nonempty)
  qed
qed

theorem stream_cache_round_trip_witness:
  "\<exists>i'. SendMsg sampleExternals (freshInterceptor (scriptedStream []) recordedCache)
            (SeriesRequest ''req'') = Return (None, i') \<and>
     cachedCalls i' = 1 \<and>
     run sampleExternals i'
        [Recv (SeriesResponse []), Recv (SeriesResponse []), Recv (SeriesResponse []),
         Recv (SeriesResponse [])] =
       Return ([(None, SeriesResponse ''m0''), (None, SeriesResponse ''m1''),
                (None, SeriesResponse ''m2''), (Some EOF, SeriesResponse [])],
               i'\<lparr>responses := []\<rparr>) \<and>
     recvCalls (ClientStream (i'\<lparr>responses := []\<rparr>)) = 0"
proof -
  let ?x = sampleExternals
  let ?i = "freshInterceptor (scriptedStream []) recordedCache"
  let ?Ms = "[''m0'', ''m1'', ''m2'']"
  have codec: "\<forall>r. Unmarshal ?x (Marshal ?x r) = Inr r"
    by (simp add: sampleExternals_def)
  have len: "length ?Ms < 2 ^ 63" by simp
  have cap: "length ?Ms \<le> maxCap ?x" by (simp add: sampleExternals_def)
  have fresh: "\<not> cachedResponsesAvailable ?i" by (simp add: freshInterceptor_def)
  have F: "hashReqTarget ?x ''req'' (target ?i) = sampleF"
    by (simp add: sampleF_def freshInterceptor_def)
  have c: "cache ?i = recordedCache" by (simp add: freshInterceptor_def)
  have "intact recordedCache (putResponses_keys ?x sampleF ?Ms)"
    unfolding recordedCache_def by (rule intact_putResponses)
  then have intact:
    "intact (cache ?i) (putResponses_keys ?x (hashReqTarget ?x ''req'' (target ?i)) ?Ms)"
    by (simp only: F c)
  have "getResponses ?x recordedCache sampleF = Return (Inr ?Ms)"
    unfolding recordedCache_def by (rule getResponses_putResponses [OF codec len cap])
  then have "getResponses ?x (cache ?i) (hashReqTarget ?x ''req'' (target ?i)) = Return (Inr ?Ms)"
    by (simp only: F c)
  from SendMsg_hit [OF this] obtain i' where
    send: "SendMsg ?x ?i (SeriesRequest ''req'') = Return (None, i')"
    and i': "cachedResponsesAvailable i'" "cachedCalls i' = 1" "recvCalls (ClientStream i') = 0"
    by (simp add: freshInterceptor_def scriptedStream_def ClientStream_SendMsg_def)
  have dsts: "length [[], [], []] = length ?Ms" by simp
  from stream_cache_round_trip [OF codec len fresh intact send i'(1) dsts, of "SeriesResponse []"]
    send i'(2,3)
  show ?thesis by simp
qed

text \<open>
  What the lookup does short of a panic. Let the count key of the fingerprint \<open>F\<close> of a
  request be present. If the count does not scan as an integer, or it scans as an \<open>N\<close> that
  \<open>make\<close> accepts and the \<open>Fetch\<close> of the \<open>N\<close> indexed keys returns fewer than \<open>N\<close> entries, or
  one of the \<open>N\<close> entries does not deserialise, then \<open>SendMsg\<close> hands the request to the
  transport and returns what the transport's \<open>SendMsg\<close> returns, only the fingerprint is set
  in the wrapper, and every later sequence of reads is answered by the transport's own
  replies.
\<close>

lemma lookup_failure_keeps_recording:
  assumes fresh: "\<not> cachedResponsesAvailable i"
    and F: "F = hashReqTarget x q (target i)"
    and count: "map_of (items (cache i)) (F @ ''-num'') = Some b"
    and bad: "Sscanf_d b = None \<or>
              (\<exists>N. Sscanf_d b = Some (int N) \<and> N \<le> maxCap x \<and>
                 (length (InMemoryCache_Fetch (cache i)
                            (map (\<lambda>j. F @ ''-'' @ Sprintf_d (int j)) [0..<N])) < N \<or>
                  (\<exists>j<N. \<exists>e. Unmarshal x
                      (case map_of (items (cache i)) (F @ ''-'' @ Sprintf_d (int j)) of
                         None \<Rightarrow> [] | Some d \<Rightarrow> d) = Inl e)))"
  shows "SendMsg x i (SeriesRequest q) =
           Return (fst (ClientStream_SendMsg (ClientStream i) (SeriesRequest q)),
             i\<lparr>ClientStream := snd (ClientStream_SendMsg (ClientStream i) (SeriesRequest q)),
               hashedReq := F\<rparr>) \<and>
         (\<forall>ds. \<exists>i''.
            run x (i\<lparr>ClientStream := snd (ClientStream_SendMsg (ClientStream i) (SeriesRequest q)),
                     hashedReq := F\<rparr>) (map Recv ds) =
              Return (fst (ClientStream_run
                             (snd (ClientStream_SendMsg (ClientStream i) (SeriesRequest q)))
                             (map Recv ds)), i''))"
proof -
  have keys: "(\<lambda>j. F @ ''-'' @ Sprintf_d (int j)) = indexKey F"
    by (rule ext) (simp add: indexKey_def)
  from count have count': "map_of (items (cache i)) (numKey F) = Some b"
    by (simp add: numKey_def)
  from bad have "\<exists>e. getResponses x (cache i) F = Return (Inl e)"
  proof (elim disjE exE conjE)
    assume "Sscanf_d b = None"
    with count' show ?thesis by (simp add: getResponses_malformed)
  next
    fix N
    assume "Sscanf_d b = Some (int N)" and "N \<le> maxCap x"
      and "length (InMemoryCache_Fetch (cache i)
             (map (\<lambda>j. F @ ''-'' @ Sprintf_d (int j)) [0..<N])) < N"
    with count' show ?thesis
      unfolding keys by (rule getResponses_short)
  next
    fix N j e
    assume "Sscanf_d b = Some (int N)" and "N \<le> maxCap x" and "j < N"
      and "Unmarshal x (case map_of (items (cache i)) (F @ ''-'' @ Sprintf_d (int j)) of
                         None \<Rightarrow> [] | Some d \<Rightarrow> d) = Inl e"
    with count' show ?thesis
      using getResponses_bad_entry [of "cache i" F b N j x e]
      by (simp add: indexKey_def)
  qed
  then obtain e where "getResponses x (cache i) (hashReqTarget x q (target i)) = Return (Inl e)"
    unfolding F ..
  then have send: "SendMsg x i (SeriesRequest q) =
      Return (fst (ClientStream_SendMsg (ClientStream i) (SeriesRequest q)),
        i\<lparr>ClientStream := snd (ClientStream_SendMsg (ClientStream i) (SeriesRequest q)),
          hashedReq := hashReqTarget x q (target i)\<rparr>)"
    by (rule SendMsg_miss)
  let ?i1 = "i\<lparr>ClientStream := snd (ClientStream_SendMsg (ClientStream i) (SeriesRequest q)),
          hashedReq := hashReqTarget x q (target i)\<rparr>"
  from fresh have nc: "\<not> cachedResponsesAvailable ?i1" by simp
  have "\<forall>ds. \<exists>i''. run x ?i1 (map Recv ds) =
      Return (fst (ClientStream_run (ClientStream ?i1) (map Recv ds)), i'')"
    using run_not_cached [OF nc] by blast
  with send show ?thesis
    unfolding F by simp
qed


text \<open>
  Claim C7: take a call that starts with an empty buffer and misses the cache for its
  request of fingerprint \<open>F\<close>, reads \<open>n\<close> messages from the transport and then
  end-of-stream. For \<open>n \<ge> 1\<close> it hands the cache backend one batch, for \<open>n = 0\<close> none; the
  batch maps \<open>F-num\<close> to the decimal digits of \<open>n\<close> and \<open>F-k\<close>, for each \<open>k < n\<close>, to the
  serialised \<open>k\<close>-th message in arrival order, and has no other key; the counter of fully
  cached calls is as before.
\<close>

theorem record_path_writes_chunked_entry:
  assumes noReplay: "\<not> cachedResponsesAvailable i" and empty: "responses i = []"
    and F: "F = hashReqTarget x q (target i)"
    and miss: "getResponses x (cache i) F = Return (Inl e)"
    and reads: "\<forall>k<length Ms. recvScript (ClientStream i) (recvCalls (ClientStream i) + k) =
                  Inr (SeriesResponse (Ms ! k))"
    and eof: "recvScript (ClientStream i) (recvCalls (ClientStream i) + length Ms) = Inl EOF"
    and dsts: "length ds = length Ms"
  shows "\<exists>replies i' batch.
           run x i (Send (SeriesRequest q) # map Recv ds @ [Recv m]) = Return (replies, i') \<and>
           stored (cache i') = stored (cache i) @ (if Ms = [] then [] else [batch]) \<and>
           map_of batch (F @ ''-num'') = Some (Sprintf_d (int (length Ms))) \<and>
           (\<forall>k<length Ms. map_of batch (F @ ''-'' @ Sprintf_d (int k)) = Some (Marshal x (Ms ! k))) \<and>
           fst ` set batch =
             insert (F @ ''-num'') ((\<lambda>k. F @ ''-'' @ Sprintf_d (int k)) ` {..<length Ms}) \<and>
           distinct (map fst batch) \<and>
           cachedCalls i' = cachedCalls i"
proof -
  let ?E = "putResponses_keys x F Ms"
  let ?n = "length Ms"
  define i1 where "i1 = i\<lparr>ClientStream := snd (ClientStream_SendMsg (ClientStream i) (SeriesRequest q)),
      hashedReq := hashReqTarget x q (target i)\<rparr>"
  define i2 where "i2 = i1\<lparr>ClientStream := (ClientStream i1)\<lparr>recvCalls := recvCalls (ClientStream i1) + ?n\<rparr>,
      responses := responses i1 @ Ms\<rparr>"
  define i3 where "i3 =
      (if Ms = []
       then i2\<lparr>ClientStream := (ClientStream i2)\<lparr>recvCalls := Suc (recvCalls (ClientStream i2))\<rparr>\<rparr>
       else i2\<lparr>ClientStream := (ClientStream i2)\<lparr>recvCalls := Suc (recvCalls (ClientStream i2))\<rparr>,
              cache := putResponses x (cache i2) (hashedReq i2) (responses i2)\<rparr>)"
  have cs1: "recvScript (ClientStream i1) = recvScript (ClientStream i)"
    "recvCalls (ClientStream i1) = recvCalls (ClientStream i)"
    by (simp_all add: i1_def ClientStream_SendMsg_def)
  from miss have send: "SendMsg x i (SeriesRequest q) =
      Return (fst (ClientStream_SendMsg (ClientStream i) (SeriesRequest q)), i1)"
    unfolding F i1_def by (rule SendMsg_miss)
  have Fne: "hashedReq i1 \<noteq> []" by (simp add: i1_def hashReqTarget_nonempty)
  have nc: "\<not> cachedResponsesAvailable i1" using noReplay by (simp add: i1_def)
  have rd: "\<forall>k<?n. recvScript (ClientStream i1) (recvCalls (ClientStream i1) + k) =
      Inr (SeriesResponse (Ms ! k))"
    using reads by (simp add: cs1)
  have rec: "run x i1 (map Recv ds) = Return (map (\<lambda>M. (None, SeriesResponse M)) Ms, i2)"
    unfolding i2_def using Fne nc rd dsts by (rule run_record)
  have i2: "hashedReq i2 = F" "\<not> cachedResponsesAvailable i2" "responses i2 = Ms"
    "recvScript (ClientStream i2) (recvCalls (ClientStream i2)) = Inl EOF"
    using noReplay empty eof by (simp_all add: i2_def cs1) (simp_all add: i1_def F)
  have last: "RecvMsg x i2 m = Return (Some EOF, m, i3)"
    using i2
    by (simp add: RecvMsg_def ClientStream_RecvMsg_def i3_def F hashReqTarget_nonempty)
  have run: "run x i (Send (SeriesRequest q) # map Recv ds @ [Recv m]) =
      Return ((fst (ClientStream_SendMsg (ClientStream i) (SeriesRequest q)), SeriesRequest q) #
              map (\<lambda>M. (None, SeriesResponse M)) Ms @ [(Some EOF, m)], i3)"
    by (simp add: send run_append rec last)
  have st: "stored (cache i3) = stored (cache i) @ (if Ms = [] then [] else [?E])"
    using i2 by (simp add: i3_def putResponses_def Store_stored) (simp add: i2_def i1_def)
  have cc: "cachedCalls i3 = cachedCalls i"
    by (simp add: i3_def i2_def i1_def)
  have num: "map_of ?E (F @ ''-num'') = Some (Sprintf_d (int ?n))"
    using putResponses_keys_num [of x F Ms] by (simp add: numKey_def)
  have idx: "\<forall>k<?n. map_of ?E (F @ ''-'' @ Sprintf_d (int k)) = Some (Marshal x (Ms ! k))"
    using putResponses_keys_index [of x F Ms] by (simp add: indexKey_def)
  have dom: "fst ` set ?E =
      insert (F @ ''-num'') ((\<lambda>k. F @ ''-'' @ Sprintf_d (int k)) ` {..<?n})"
    using putResponses_keys_dom [of x F Ms] by (simp add: numKey_def indexKey_def [abs_def])
  from run st num idx dom putResponses_keys_distinct [of x F Ms] cc show ?thesis
    by blast
qed

theorem record_path_writes_chunked_entry_witness:
  "\<exists>replies i' batch.
     run sampleExternals (freshInterceptor threeMessages emptyCache)
       [Send (SeriesRequest ''req''), Recv (SeriesResponse []), Recv (SeriesResponse []),
        Recv (SeriesResponse []), Recv (SeriesResponse [])] = Return (replies, i') \<and>
     stored (cache i') = [batch] \<and>
     map_of batch (sampleF @ ''-num'') = Some ''3'' \<and>
     map_of batch (sampleF @ ''-0'') = Some ''m0'' \<and>
     map_of batch (sampleF @ ''-1'') = Some ''m1'' \<and>
     map_of batch (sampleF @ ''-2'') = Some ''m2'' \<and>
     cachedCalls i' = 0"
proof -
  let ?x = sampleExternals
  let ?i = "freshInterceptor threeMessages emptyCache"
  let ?Ms = "[''m0'', ''m1'', ''m2'']"
  have noReplay: "\<not> cachedResponsesAvailable ?i" and empty: "responses ?i = []"
    by (simp_all add: freshInterceptor_def)
  have F: "sampleF = hashReqTarget ?x ''req'' (target ?i)"
    by (simp add: sampleF_def freshInterceptor_def)
  have miss: "getResponses ?x (cache ?i) sampleF = Return (Inl (Error ''not found num key''))"
    by (simp add: getResponses_unfold freshInterceptor_def emptyCache_def)
  have script: "recvScript (ClientStream ?i) k =
      (if k < 3 then map (\<lambda>M. Inr (SeriesResponse M)) ?Ms ! k else Inl EOF)" for k
    by (simp add: freshInterceptor_def threeMessages_def scriptedStream_def)
  have rc: "recvCalls (ClientStream ?i) = 0"
    by (simp add: freshInterceptor_def threeMessages_def scriptedStream_def)
  have reads: "\<forall>k<length ?Ms. recvScript (ClientStream ?i) (recvCalls (ClientStream ?i) + k) =
      Inr (SeriesResponse (?Ms ! k))"
    unfolding script rc by (simp add: nth_map del: list.map)
  have eof: "recvScript (ClientStream ?i) (recvCalls (ClientStream ?i) + length ?Ms) = Inl EOF"
    unfolding script rc by simp
  have dsts: "length [SeriesResponse [], SeriesResponse [], SeriesResponse []] = length ?Ms"
    by simp
  from record_path_writes_chunked_entry
    [OF noReplay empty F miss reads eof dsts, of "SeriesResponse []"]
  obtain replies i' batch where
    run: "run ?x ?i (Send (SeriesRequest ''req'') #
        map Recv [SeriesResponse [], SeriesResponse [], SeriesResponse []] @
        [Recv (SeriesResponse [])]) = Return (replies, i')"
    and st: "stored (cache i') = stored (cache ?i) @ (if ?Ms = [] then [] else [batch])"
    and num: "map_of batch (sampleF @ ''-num'') = Some (Sprintf_d (int (length ?Ms)))"
    and idx: "\<forall>k<length ?Ms. map_of batch (sampleF @ ''-'' @ Sprintf_d (int k)) =
        Some (Marshal ?x (?Ms ! k))"
    and dom: "fst ` set batch = insert (sampleF @ ''-num'')
        ((\<lambda>k. sampleF @ ''-'' @ Sprintf_d (int k)) ` {..<length ?Ms})"
    and dist: "distinct (map fst batch)"
    and cc: "cachedCalls i' = cachedCalls ?i"
    by (elim exE conjE) (rule that, assumption+)
  have d: "digits 0 = ''0''" "digits 1 = ''1''" "digits 2 = ''2''" "digits 3 = ''3''"
    by (simp_all add: digits.simps digitChar_def)
  have len3: "length ?Ms = 3" by simp
  have e: "map_of batch (sampleF @ ''-0'') = Some ''m0''"
    "map_of batch (sampleF @ ''-1'') = Some ''m1''"
    "map_of batch (sampleF @ ''-2'') = Some ''m2''"
    using idx [rule_format, of 0, unfolded Sprintf_d_nat d]
      idx [rule_format, of 1, unfolded Sprintf_d_nat d]
      idx [rule_format, of 2, unfolded Sprintf_d_nat d]
    by (simp_all add: sampleExternals_def)
  have n: "map_of batch (sampleF @ ''-num'') = Some ''3''"
    using num [unfolded Sprintf_d_nat len3 d] .
  from st have s: "stored (cache i') = [batch]"
    by (simp add: freshInterceptor_def emptyCache_def)
  from cc have c0: "cachedCalls i' = 0" by (simp add: freshInterceptor_def)
  from run have "run ?x ?i [Send (SeriesRequest ''req''), Recv (SeriesResponse []),
      Recv (SeriesResponse []), Recv (SeriesResponse []), Recv (SeriesResponse [])] =
      Return (replies, i')"
    by simp
  with s n e c0 show ?thesis
    by (intro exI [of _ replies] exI [of _ i'] exI [of _ batch] conjI)
qed

subsection \<open>Persistence while recording\<close>

lemma sampleF_nonempty: "sampleF \<noteq> []"
  by (simp add: sampleF_def hashReqTarget_nonempty)

lemma sampleF_hash: "hashReqTarget sampleExternals ''req'' ''store-1:10901'' = sampleF"
  by (simp add: sampleF_def)




subsection \<open>A request sent after another message\<close>

text \<open>
  Claim C10, as stated, fails when a request follows a first message of another type:
  \<open>SendMsg\<close> fingerprints and looks up on every \<open>*storepb.SeriesRequest\<close>, whatever was sent
  before. With the three recorded messages in the cache, the read after such a request is
  served the cached \<open>m0\<close> and a fully cached call is counted, while the unwrapped stream
  delivers \<open>live\<close>.
\<close>

theorem later_request_is_fingerprinted:
  "run sampleExternals (freshInterceptor liveStream recordedCache)
     [Send (OtherMessage ''ping''), Send (SeriesRequest ''req''), Recv (SeriesResponse [])]
   = Return ([(None, OtherMessage ''ping''), (None, SeriesRequest ''req''),
              (None, SeriesResponse ''m0'')],
       (freshInterceptor liveStream recordedCache)
         \<lparr>ClientStream := liveStream\<lparr>sentMsgs := [OtherMessage ''ping'', SeriesRequest ''req'']\<rparr>,
          hashedReq := sampleF, responses := [''m1'', ''m2''],
          cachedResponsesAvailable := True, cachedCalls := 1\<rparr>) \<and>
   fst (ClientStream_run liveStream
     [Send (OtherMessage ''ping''), Send (SeriesRequest ''req''), Recv (SeriesResponse [])])
   = [(None, OtherMessage ''ping''), (None, SeriesRequest ''req''),
      (None, SeriesResponse ''live'')]"
proof -
  have codec: "\<forall>r. Unmarshal sampleExternals (Marshal sampleExternals r) = Inr r"
    by (simp add: sampleExternals_def)
  have hit: "getResponses sampleExternals recordedCache sampleF =
      Return (Inr [''m0'', ''m1'', ''m2''])"
    unfolding recordedCache_def
    by (rule getResponses_putResponses [OF codec]) (simp_all add: sampleExternals_def)
  have run: "run sampleExternals (freshInterceptor liveStream recordedCache)
     [Send (OtherMessage ''ping''), Send (SeriesRequest ''req''), Recv (SeriesResponse [])]
   = Return ([(None, OtherMessage ''ping''), (None, SeriesRequest ''req''),
              (None, SeriesResponse ''m0'')],
       (freshInterceptor liveStream recordedCache)
         \<lparr>ClientStream := liveStream\<lparr>sentMsgs := [OtherMessage ''ping'', SeriesRequest ''req'']\<rparr>,
          hashedReq := sampleF, responses := [''m1'', ''m2''],
          cachedResponsesAvailable := True, cachedCalls := 1\<rparr>)"
    by (simp add: SendMsg_def forward_def RecvMsg_def ClientStream_SendMsg_def
        freshInterceptor_def liveStream_def scriptedStream_def
        sampleF_hash sampleF_nonempty hit)
  have "fst (ClientStream_run liveStream
     [Send (OtherMessage ''ping''), Send (SeriesRequest ''req''), Recv (SeriesResponse [])])
   = [(None, OtherMessage ''ping''), (None, SeriesRequest ''req''),
      (None, SeriesResponse ''live'')]"
    by (simp add: ClientStream_SendMsg_def ClientStream_RecvMsg_def liveStream_def
        scriptedStream_def)
  with run show ?thesis ..
qed

end
